theory Spec2Isabelle
  imports Main "HOL-Library.Char_ord" "HOL-Library.List_Lexorder"
begin

section \<open>Data model of \<open>Graph.js\<close>\<close>

text \<open>
  JavaScript objects have an identity that is independent of their fields, and the
  graph relies on it in three places: \<open>edges\<close> is a \<open>Set<Edge>\<close> (membership, \<open>add\<close>
  and \<open>delete\<close> compare object references), the traversals keep a \<open>Set<Node>\<close> of
  visited node objects, and \<open>replaceNodesConnectedTo\<close> assigns to the \<open>value\<close>
  field of a node object that other holders may alias.

  \<^item> Node objects live in an explicit store: a \<open>ref\<close> is the address of a node object
    and the heap maps it to the object's fields. The code never creates node objects,
    it only receives them, so the heap is a total function and needs no allocator.
  \<^item> Edge objects are never assigned to after their creation, so an edge is modelled
    as an immutable value that carries its own address \<open>edge_ref\<close>; two edge values
    are the same object exactly when they are equal.
  \<^item> \<open>Map<NodeId, Node>\<close> is an association list in insertion order, \<open>Set<Edge>\<close> a
    list in insertion order: both orders are observable through iteration.
\<close>

type_synonym NodeId = string
type_synonym ref = nat

record 'v Node =
  node_id :: NodeId
  node_value :: 'v

type_synonym 'v heap = "ref \<Rightarrow> 'v Node"

record Edge =
  edge_ref :: nat
  edge_from :: NodeId
  edge_to :: NodeId

record Graph =
  nodes :: "(NodeId \<times> ref) list"
  edges :: "Edge list"
  rootNodeId :: "NodeId option"

subsection \<open>\<open>Map\<close> and \<open>Set\<close> of the JavaScript runtime\<close>

text \<open>\<open>Map.prototype.set\<close>: an existing key keeps its position, a new key is appended.\<close>

primrec Map_set :: "'k \<Rightarrow> 'a \<Rightarrow> ('k \<times> 'a) list \<Rightarrow> ('k \<times> 'a) list" where
  "Map_set k v [] = [(k, v)]"
| "Map_set k v (p # ps) = (if fst p = k then (k, v) # ps else p # Map_set k v ps)"

primrec Map_get :: "('k \<times> 'a) list \<Rightarrow> 'k \<Rightarrow> 'a option" where
  "Map_get [] k = None"
| "Map_get (p # ps) k = (if fst p = k then Some (snd p) else Map_get ps k)"

definition Map_has :: "('k \<times> 'a) list \<Rightarrow> 'k \<Rightarrow> bool" where
  "Map_has m k = (Map_get m k \<noteq> None)"

definition Map_delete :: "'k \<Rightarrow> ('k \<times> 'a) list \<Rightarrow> ('k \<times> 'a) list" where
  "Map_delete k m = filter (\<lambda>p. fst p \<noteq> k) m"

text \<open>\<open>Set.prototype.add\<close> and \<open>delete\<close>, on object references.\<close>

definition Set_add :: "'a \<Rightarrow> 'a list \<Rightarrow> 'a list" where
  "Set_add x xs = (if x \<in> set xs then xs else xs @ [x])"

definition Set_delete :: "'a \<Rightarrow> 'a list \<Rightarrow> 'a list" where
  "Set_delete x xs = removeAll x xs"

subsection \<open>Structural operations\<close>

text \<open>\<open>new Graph()\<close> (and \<open>new this.constructor()\<close>) without options.\<close>

definition emptyGraph :: Graph where
  "emptyGraph = \<lparr>nodes = [], edges = [], rootNodeId = None\<rparr>"

definition addNode :: "'v heap \<Rightarrow> Graph \<Rightarrow> ref \<Rightarrow> Graph" where
  "addNode h g n = g\<lparr>nodes := Map_set (node_id (h n)) n (nodes g)\<rparr>"

definition hasNode :: "Graph \<Rightarrow> NodeId \<Rightarrow> bool" where
  "hasNode g i = Map_has (nodes g) i"

definition getNode :: "Graph \<Rightarrow> NodeId \<Rightarrow> ref option" where
  "getNode g i = Map_get (nodes g) i"

definition setRootNode :: "'v heap \<Rightarrow> Graph \<Rightarrow> ref \<Rightarrow> Graph" where
  "setRootNode h g n = (addNode h g n)\<lparr>rootNodeId := Some (node_id (h n))\<rparr>"

text \<open>
  \<open>this.rootNodeId ? this.getNode(this.rootNodeId) : null\<close>: \<open>null\<close> and the empty
  string are both falsy.
\<close>

definition getRootNode :: "Graph \<Rightarrow> ref option" where
  "getRootNode g =
     (case rootNodeId g of
        None \<Rightarrow> None
      | Some i \<Rightarrow> if i = [] then None else getNode g i)"

definition addEdge :: "Graph \<Rightarrow> Edge \<Rightarrow> Graph" where
  "addEdge g e = g\<lparr>edges := Set_add e (edges g)\<rparr>"

definition hasEdge :: "Graph \<Rightarrow> Edge \<Rightarrow> bool" where
  "hasEdge g edge =
     list_ex (\<lambda>e. edge_from edge = edge_from e \<and> edge_to edge = edge_to e) (edges g)"

text \<open>
  \<open>this.nodes.get(edge.from)\<close> is \<open>undefined\<close> for a dangling edge, so the arrays
  returned here hold \<open>ref option\<close>.
\<close>

definition getNodesConnectedTo :: "'v heap \<Rightarrow> Graph \<Rightarrow> ref \<Rightarrow> ref option list" where
  "getNodesConnectedTo h g n =
     map (\<lambda>e. Map_get (nodes g) (edge_from e))
         (filter (\<lambda>e. edge_to e = node_id (h n)) (edges g))"

definition getNodesConnectedFrom :: "'v heap \<Rightarrow> Graph \<Rightarrow> ref \<Rightarrow> ref option list" where
  "getNodesConnectedFrom h g n =
     map (\<lambda>e. Map_get (nodes g) (edge_to e))
         (filter (\<lambda>e. edge_from e = node_id (h n)) (edges g))"

text \<open>
  \<open>merge\<close> re-keys every node of the other graph by its own \<open>id\<close> (it calls
  \<open>addNode\<close>) and never touches \<open>rootNodeId\<close>. The two graphs are distinct objects.
\<close>

definition merge :: "'v heap \<Rightarrow> Graph \<Rightarrow> Graph \<Rightarrow> Graph" where
  "merge h g graph = foldl addEdge (foldl (addNode h) g (map snd (nodes graph))) (edges graph)"

definition isOrphanedNode :: "'v heap \<Rightarrow> Graph \<Rightarrow> ref \<Rightarrow> bool" where
  "isOrphanedNode h g n = list_all (\<lambda>e. edge_to e \<noteq> node_id (h n)) (edges g)"

subsection \<open>Cascading removal\<close>

text \<open>
  \<open>removeNode\<close> and \<open>removeEdge\<close> call each other from inside \<open>for \<dots> of\<close> loops over
  \<open>this.edges\<close> and \<open>this.nodes\<close>, which the nested calls shrink. Iteration over a
  JavaScript \<open>Set\<close> or \<open>Map\<close> is live: an entry deleted before the iterator reaches
  it is skipped. Nothing is inserted into \<open>this.edges\<close> or \<open>this.nodes\<close> while these
  loops run, so each loop walks the snapshot taken at its start and skips the entries
  that are no longer present.

  The first argument is fuel: it bounds the depth of the mutual recursion, and \<open>None\<close>
  means that the fuel ran out. The result is the updated \<open>this\<close> and the graph
  \<open>removed\<close>.
\<close>

function (sequential) removeNode :: "nat \<Rightarrow> 'v heap \<Rightarrow> Graph \<Rightarrow> ref \<Rightarrow> (Graph \<times> Graph) option"
and removeNode_loop ::
  "nat \<Rightarrow> 'v heap \<Rightarrow> ref \<Rightarrow> Edge list \<Rightarrow> Graph \<Rightarrow> Graph \<Rightarrow> (Graph \<times> Graph) option"
and removeEdge :: "nat \<Rightarrow> 'v heap \<Rightarrow> Graph \<Rightarrow> Edge \<Rightarrow> (Graph \<times> Graph) option"
and removeEdge_loop ::
  "nat \<Rightarrow> 'v heap \<Rightarrow> Edge \<Rightarrow> (NodeId \<times> ref) list \<Rightarrow> Graph \<Rightarrow> Graph \<Rightarrow> (Graph \<times> Graph) option"
where
  "removeNode 0 h g n = None"
| "removeNode (Suc k) h g n =
     (let g1 = g\<lparr>nodes := Map_delete (node_id (h n)) (nodes g)\<rparr>;
          removed = addNode h emptyGraph n
      in removeNode_loop k h n (edges g1) g1 removed)"
| "removeNode_loop k h n [] g removed = Some (g, removed)"
| "removeNode_loop k h n (edge # es) g removed =
     (if edge \<in> set (edges g)
         \<and> (edge_from edge = node_id (h n) \<or> edge_to edge = node_id (h n))
      then (case removeEdge k h g edge of
              None \<Rightarrow> None
            | Some (g', r) \<Rightarrow> removeNode_loop k h n es g' (merge h removed r))
      else removeNode_loop k h n es g removed)"
| "removeEdge 0 h g edge = None"
| "removeEdge (Suc k) h g edge =
     (let g1 = g\<lparr>edges := Set_delete edge (edges g)\<rparr>;
          removed = addEdge emptyGraph edge
      in removeEdge_loop k h edge (nodes g1) g1 removed)"
| "removeEdge_loop k h edge [] g removed = Some (g, removed)"
| "removeEdge_loop k h edge (p # ps) g removed =
     (if p \<in> set (nodes g) \<and> edge_to edge = fst p \<and> isOrphanedNode h g (snd p)
      then (case removeNode k h g (snd p) of
              None \<Rightarrow> None
            | Some (g', r) \<Rightarrow> removeEdge_loop k h edge ps g' (merge h removed r))
      else removeEdge_loop k h edge ps g removed)"
  by pat_completeness auto
termination
  by (relation "measures [
      (\<lambda>x. case x of Inl (Inl (k, _)) \<Rightarrow> k | Inl (Inr (k, _)) \<Rightarrow> k
                       | Inr (Inl (k, _)) \<Rightarrow> k | Inr (Inr (k, _)) \<Rightarrow> k),
      (\<lambda>x. case x of Inl (Inl _) \<Rightarrow> 0 | Inl (Inr (_, _, _, es, _)) \<Rightarrow> Suc (length es)
                       | Inr (Inl _) \<Rightarrow> 0 | Inr (Inr (_, _, _, ps, _)) \<Rightarrow> Suc (length ps))]") auto

subsection \<open>Incremental replacement of a node's successors\<close>




record 'v GraphUpdates =
  gu_heap :: "'v heap"
  gu_this :: Graph
  gu_next :: nat
  removed :: Graph
  added :: Graph


subsection \<open>Traversal\<close>

text \<open>
  The \<open>visit\<close> callback is a function of the caller. It is modelled as a transformer of
  a caller's state \<open>'s\<close> that reports what it returned (\<open>None\<close> for \<open>undefined\<close>) and
  whether it called \<open>skipChildren()\<close> or \<open>stop()\<close> on the traversal context; it neither
  throws nor changes the graph. A node argument is \<open>ref option\<close>, \<open>None\<close> being the
  \<open>undefined\<close> that a dangling edge yields; reading \<open>node.id\<close> of it throws.
\<close>

datatype error = TypeError

record 'c VisitOutcome =
  returned :: "'c option"
  calledSkipChildren :: bool
  calledStop :: bool

type_synonym ('s, 'c) visitor = "'s \<Rightarrow> ref option \<Rightarrow> 'c option \<Rightarrow> 's \<times> 'c VisitOutcome"

record 's Traversal =
  visited :: "ref option set"
  stopped :: bool
  skipped :: bool
  caller :: 's

definition childrenFrom :: "'v heap \<Rightarrow> Graph \<Rightarrow> ref option \<Rightarrow> error + ref option list" where
  "childrenFrom h g node =
     (case node of None \<Rightarrow> Inl TypeError | Some n \<Rightarrow> Inr (getNodesConnectedFrom h g n))"

definition childrenTo :: "'v heap \<Rightarrow> Graph \<Rightarrow> ref option \<Rightarrow> error + ref option list" where
  "childrenTo h g node =
     (case node of None \<Rightarrow> Inl TypeError | Some n \<Rightarrow> Inr (getNodesConnectedTo h g n))"

text \<open>
  \<open>walk\<close> is the closure of \<open>dfs\<close>; \<open>walk_children\<close> is its \<open>for\<close> loop. A result
  \<open>None\<close> in the second component is the \<open>undefined\<close> that \<open>walk\<close> returns when it
  falls off its end or takes the bare \<open>return\<close>. The first argument is fuel.
\<close>

function (sequential) walk ::
  "nat \<Rightarrow> ('s, 'c) visitor \<Rightarrow> (ref option \<Rightarrow> error + ref option list) \<Rightarrow>
   ref option \<Rightarrow> 'c option \<Rightarrow> 's Traversal \<Rightarrow> (error + 's Traversal \<times> 'c option) option"
and walk_children ::
  "nat \<Rightarrow> ('s, 'c) visitor \<Rightarrow> (ref option \<Rightarrow> error + ref option list) \<Rightarrow>
   ref option list \<Rightarrow> 'c option \<Rightarrow> 's Traversal \<Rightarrow> (error + 's Traversal \<times> 'c option) option"
where
  "walk 0 visit getChildren node context t = None"
| "walk (Suc k) visit getChildren node context t =
     (let t1 = t\<lparr>visited := insert node (visited t), skipped := False\<rparr>;
          (s', out) = visit (caller t1) node context;
          t2 = t1\<lparr>caller := s',
                  skipped := calledSkipChildren out,
                  stopped := stopped t1 \<or> calledStop out\<rparr>;
          context' = (case returned out of None \<Rightarrow> context | Some c \<Rightarrow> Some c)
      in if skipped t2 then Some (Inr (t2, None))
         else if stopped t2 then Some (Inr (t2, context'))
         else (case getChildren node of
                 Inl e \<Rightarrow> Some (Inl e)
               | Inr cs \<Rightarrow> walk_children k visit getChildren cs context' t2))"
| "walk_children k visit getChildren [] context t = Some (Inr (t, None))"
| "walk_children k visit getChildren (child # cs) context t =
     (if child \<in> visited t then walk_children k visit getChildren cs context t
      else (case walk k visit getChildren child context
                   (t\<lparr>visited := insert child (visited t)\<rparr>) of
              None \<Rightarrow> None
            | Some (Inl e) \<Rightarrow> Some (Inl e)
            | Some (Inr (t', result)) \<Rightarrow>
                if stopped t' then Some (Inr (t', result))
                else walk_children k visit getChildren cs context t'))"
  by pat_completeness auto
termination
  by (relation "measures [
      (\<lambda>x. case x of Inl (k, _) \<Rightarrow> k | Inr (k, _) \<Rightarrow> k),
      (\<lambda>x. case x of Inl _ \<Rightarrow> 0 | Inr (_, _, _, cs, _) \<Rightarrow> Suc (length cs))]") auto

text \<open>\<open>dfs\<close> returns the caller's final state and the value \<open>walk(root)\<close> returned.\<close>

definition dfs ::
  "nat \<Rightarrow> Graph \<Rightarrow> ('s, 'c) visitor \<Rightarrow> ref option \<Rightarrow>
   (ref option \<Rightarrow> error + ref option list) \<Rightarrow> 's \<Rightarrow> (error + 's \<times> 'c option) option" where
  "dfs k g visit startNode getChildren s =
     (let root = (case startNode of Some n \<Rightarrow> Some n | None \<Rightarrow> getRootNode g)
      in case root of
           None \<Rightarrow> Some (Inr (s, None))
         | Some r \<Rightarrow>
             (case walk k visit getChildren (Some r) None
                     \<lparr>visited = {}, stopped = False, skipped = False, caller = s\<rparr> of
                None \<Rightarrow> None
              | Some (Inl e) \<Rightarrow> Some (Inl e)
              | Some (Inr (t, result)) \<Rightarrow> Some (Inr (caller t, result))))"

definition traverse ::
  "nat \<Rightarrow> 'v heap \<Rightarrow> Graph \<Rightarrow> ('s, 'c) visitor \<Rightarrow> ref option \<Rightarrow> 's \<Rightarrow>
   (error + 's \<times> 'c option) option" where
  "traverse k h g visit startNode s = dfs k g visit startNode (childrenFrom h g) s"

definition traverseAncestors ::
  "nat \<Rightarrow> 'v heap \<Rightarrow> Graph \<Rightarrow> ref \<Rightarrow> ('s, 'c) visitor \<Rightarrow> 's \<Rightarrow>
   (error + 's \<times> 'c option) option" where
  "traverseAncestors k h g startNode visit s = dfs k g visit (Some startNode) (childrenTo h g) s"

text \<open>
  \<open>bfs\<close>: the callback returns \<open>?boolean\<close> and only \<open>true\<close> stops the search. The
  \<open>while\<close> loop is \<open>bfs_loop\<close>, with fuel; its inner \<open>for\<close> loop is \<open>bfs_enqueue\<close>.
\<close>

fun bfs_enqueue ::
  "ref option list \<Rightarrow> ref option set \<times> ref option list \<Rightarrow> ref option set \<times> ref option list" where
  "bfs_enqueue [] (vis, queue) = (vis, queue)"
| "bfs_enqueue (child # cs) (vis, queue) =
     (if child \<notin> vis then bfs_enqueue cs (insert child vis, queue @ [child])
      else bfs_enqueue cs (vis, queue))"

fun bfs_loop ::
  "nat \<Rightarrow> ('s \<Rightarrow> ref option \<Rightarrow> 's \<times> bool option) \<Rightarrow>
   (ref option \<Rightarrow> error + ref option list) \<Rightarrow>
   ref option list \<Rightarrow> ref option set \<Rightarrow> 's \<Rightarrow> (error + 's \<times> ref option) option" where
  "bfs_loop 0 visit getChildren queue vis s = None"
| "bfs_loop (Suc k) visit getChildren [] vis s = Some (Inr (s, None))"
| "bfs_loop (Suc k) visit getChildren (node # queue) vis s =
     (let (s', stop) = visit s node
      in if stop = Some True then Some (Inr (s', node))
         else (case getChildren node of
                 Inl e \<Rightarrow> Some (Inl e)
               | Inr cs \<Rightarrow>
                   (let (vis', queue') = bfs_enqueue cs (vis, queue)
                    in bfs_loop k visit getChildren queue' vis' s')))"

definition bfs ::
  "nat \<Rightarrow> 'v heap \<Rightarrow> Graph \<Rightarrow> ('s \<Rightarrow> ref option \<Rightarrow> 's \<times> bool option) \<Rightarrow> 's \<Rightarrow>
   (error + 's \<times> ref option) option" where
  "bfs k h g visit s =
     (case getRootNode g of
        None \<Rightarrow> Some (Inr (s, None))
      | Some root \<Rightarrow> bfs_loop k visit (childrenFrom h g) [Some root] {Some root} s)"

text \<open>
  To observe which nodes a traversal hands to the callback, a callback is wrapped so
  that it appends each node it is invoked with to a log kept beside its own state.
\<close>

definition logging :: "('s, 'c) visitor \<Rightarrow> ('s \<times> ref option list, 'c) visitor" where
  "logging visit =
     (\<lambda>(s, log) node context.
        let (s', out) = visit s node context in ((s', log @ [node]), out))"

section \<open>Identity model of \<open>assetUtils.js\<close>\<close>

text \<open>
  \<open>md5FromString\<close>, \<open>md5FromFilePath\<close> (package \<open>@parcel/utils\<close>), \<open>getEnvironmentHash\<close>
  (module \<open>./Environment\<close>) and the MD5 digest of Node's \<open>crypto\<close> are imported by the
  source; they are parameters of the model. A JavaScript string is a \<open>string\<close>, \<open>+\<close> on
  strings is \<open>@\<close>, and \<open><\<close> on strings is the lexicographic order of the code units.

  The options and the asset carry further fields whose values are opaque objects
  (\<open>query\<close>, \<open>meta\<close>, \<open>dependencies\<close>, \<open>symbols\<close>, \<open>stats\<close>, \<open>astGenerator\<close>); they are
  copied or defaulted to an empty container, take no part in the id, and are left out.
\<close>

type_synonym FilePath = string

record 'env AssetOptions =
  opt_id :: "string option"
  opt_committed :: "bool option"
  opt_hash :: "string option"
  opt_idBase :: "string option"
  opt_filePath :: FilePath
  opt_type :: string
  opt_contentKey :: "string option"
  opt_mapKey :: "string option"
  opt_astKey :: "string option"
  opt_isIsolated :: "bool option"
  opt_isInline :: "bool option"
  opt_isSplittable :: "bool option"
  opt_isSource :: bool
  opt_env :: 'env
  opt_outputHash :: "string option"
  opt_pipeline :: "string option"
  opt_sideEffects :: "bool option"
  opt_uniqueKey :: "string option"
  opt_plugin :: "string option"
  opt_configPath :: "FilePath option"
  opt_configKeyPath :: "string option"

record 'env Asset =
  asset_id :: string
  asset_committed :: bool
  asset_hash :: "string option"
  asset_filePath :: FilePath
  asset_isIsolated :: bool
  asset_isInline :: bool
  asset_isSplittable :: "bool option"
  asset_type :: string
  asset_contentKey :: "string option"
  asset_mapKey :: "string option"
  asset_astKey :: "string option"
  asset_isSource :: bool
  asset_outputHash :: "string option"
  asset_pipeline :: "string option"
  asset_env :: 'env
  asset_sideEffects :: bool
  asset_uniqueKey :: string
  asset_plugin :: "string option"
  asset_configPath :: "FilePath option"
  asset_configKeyPath :: "string option"

text \<open>\<open>x ?? d\<close> and, for strings, \<open>x || d\<close> with \<open>d = ''\<close>: the default replaces an absent value.\<close>

definition orElse :: "'a option \<Rightarrow> 'a \<Rightarrow> 'a" where
  "orElse x d = (case x of None \<Rightarrow> d | Some v \<Rightarrow> v)"

definition createAsset ::
  "(string \<Rightarrow> string) \<Rightarrow> ('env \<Rightarrow> string) \<Rightarrow> 'env AssetOptions \<Rightarrow> 'env Asset" where
  "createAsset md5FromString getEnvironmentHash options =
     (let idBase = (case opt_idBase options of Some b \<Rightarrow> b | None \<Rightarrow> opt_filePath options);
          uniqueKey = orElse (opt_uniqueKey options) ''''
      in \<lparr>asset_id =
            (case opt_id options of
               Some i \<Rightarrow> i
             | None \<Rightarrow>
                 md5FromString
                   (idBase @ opt_type options @ getEnvironmentHash (opt_env options)
                    @ uniqueKey @ orElse (opt_pipeline options) '''')),
          asset_committed = orElse (opt_committed options) False,
          asset_hash = opt_hash options,
          asset_filePath = opt_filePath options,
          asset_isIsolated = orElse (opt_isIsolated options) False,
          asset_isInline = orElse (opt_isInline options) False,
          asset_isSplittable = opt_isSplittable options,
          asset_type = opt_type options,
          asset_contentKey = opt_contentKey options,
          asset_mapKey = opt_mapKey options,
          asset_astKey = opt_astKey options,
          asset_isSource = opt_isSource options,
          asset_outputHash = opt_outputHash options,
          asset_pipeline = opt_pipeline options,
          asset_env = opt_env options,
          asset_sideEffects = orElse (opt_sideEffects options) True,
          asset_uniqueKey = uniqueKey,
          asset_plugin = opt_plugin options,
          asset_configPath = opt_configPath options,
          asset_configKeyPath = opt_configKeyPath options\<rparr>)"

text \<open>
  A \<open>RequestInvalidation\<close> is an object with a \<open>type\<close> tag. The Flow type admits the tags
  \<open>'file'\<close> and \<open>'env'\<close>; \<open>OtherInvalidation t\<close> stands for an object with any other
  tag \<open>t\<close>, for which \<open>getInvalidationId\<close> throws. A failure is either that thrown
  \<open>Error\<close> or the rejection of \<open>md5FromFilePath\<close>.
\<close>

datatype RequestInvalidation =
  FileInvalidation FilePath
| EnvInvalidation string
| OtherInvalidation string

datatype 'e failure = Error string | Rejected 'e

definition getInvalidationId :: "RequestInvalidation \<Rightarrow> 'e failure + string" where
  "getInvalidationId invalidation =
     (case invalidation of
        FileInvalidation filePath \<Rightarrow> Inr (''file:'' @ filePath)
      | EnvInvalidation key \<Rightarrow> Inr (''env:'' @ key)
      | OtherInvalidation t \<Rightarrow> Inl (Error (''Unknown invalidation type: '' @ t)))"

text \<open>The comparator \<open>(a, b) => (getInvalidationId(a) < getInvalidationId(b) ? -1 : 1)\<close>.\<close>

definition compareInvalidations ::
  "RequestInvalidation \<Rightarrow> RequestInvalidation \<Rightarrow> 'e failure + int" where
  "compareInvalidations a b =
     (case getInvalidationId a of
        Inl e \<Rightarrow> Inl e
      | Inr ia \<Rightarrow>
          (case getInvalidationId b of
             Inl e \<Rightarrow> Inl e
           | Inr ib \<Rightarrow> Inr (if ia < ib then - 1 else 1)))"

text \<open>
  \<open>Array.prototype.sort\<close> with a comparator: the insertion sort that the engine applies
  to short arrays. Each element, from left to right, is compared with the elements of
  the sorted prefix and placed before the first one it is smaller than; the sort
  consults nothing but the comparator, and a throwing comparator aborts it.
\<close>

fun sort_insert ::
  "('a \<Rightarrow> 'a \<Rightarrow> 'f + int) \<Rightarrow> 'a \<Rightarrow> 'a list \<Rightarrow> 'f + 'a list" where
  "sort_insert cmp x [] = Inr [x]"
| "sort_insert cmp x (y # ys) =
     (case cmp x y of
        Inl e \<Rightarrow> Inl e
      | Inr c \<Rightarrow>
          if c < 0 then Inr (x # y # ys)
          else (case sort_insert cmp x ys of Inl e \<Rightarrow> Inl e | Inr zs \<Rightarrow> Inr (y # zs)))"

fun sort_from :: "('a \<Rightarrow> 'a \<Rightarrow> 'f + int) \<Rightarrow> 'a list \<Rightarrow> 'a list \<Rightarrow> 'f + 'a list" where
  "sort_from cmp pre [] = Inr pre"
| "sort_from cmp pre (x # xs) =
     (case sort_insert cmp x pre of
        Inl e \<Rightarrow> Inl e
      | Inr pre' \<Rightarrow> sort_from cmp pre' xs)"

definition array_sort :: "('a \<Rightarrow> 'a \<Rightarrow> 'f + int) \<Rightarrow> 'a list \<Rightarrow> 'f + 'a list" where
  "array_sort cmp xs = sort_from cmp [] xs"

text \<open>
  The loop over the sorted invalidations feeds the hash object; \<open>hash.update\<close> appends
  to the data that \<open>digest\<close> later hashes. An invalidation of another type matches no
  \<open>case\<close> and adds nothing.
\<close>

fun hash_updates ::
  "('fs \<Rightarrow> FilePath \<Rightarrow> 'e + string) \<Rightarrow> 'fs \<Rightarrow> (string \<Rightarrow> string option) \<Rightarrow>
   RequestInvalidation list \<Rightarrow> string \<Rightarrow> 'e failure + string" where
  "hash_updates md5FromFilePath inputFS env [] data = Inr data"
| "hash_updates md5FromFilePath inputFS env (invalidation # rest) data =
     (case invalidation of
        FileInvalidation filePath \<Rightarrow>
          (case md5FromFilePath inputFS filePath of
             Inl e \<Rightarrow> Inl (Rejected e)
           | Inr d \<Rightarrow> hash_updates md5FromFilePath inputFS env rest (data @ d))
      | EnvInvalidation key \<Rightarrow>
          hash_updates md5FromFilePath inputFS env rest
            (data @ key @ '':'' @ orElse (env key) '''')
      | OtherInvalidation t \<Rightarrow> hash_updates md5FromFilePath inputFS env rest data)"

definition getInvalidationHash ::
  "(string \<Rightarrow> string) \<Rightarrow> ('fs \<Rightarrow> FilePath \<Rightarrow> 'e + string) \<Rightarrow> 'fs \<Rightarrow>
   (string \<Rightarrow> string option) \<Rightarrow> RequestInvalidation list \<Rightarrow> 'e failure + string" where
  "getInvalidationHash md5_hex md5FromFilePath inputFS env invalidations =
     (case array_sort compareInvalidations invalidations of
        Inl e \<Rightarrow> Inl e
      | Inr sortedInvalidations \<Rightarrow>
          (case hash_updates md5FromFilePath inputFS env sortedInvalidations [] of
             Inl e \<Rightarrow> Inl e
           | Inr data \<Rightarrow> Inr (md5_hex data)))"

text \<open>
  The identity function of the specification, in its words: a digest of the five
  fields concatenated in this order. It is compared with what \<open>createAsset\<close> computes.
\<close>

definition spec_computeAssetId ::
  "(string \<Rightarrow> string) \<Rightarrow> string \<Rightarrow> string \<Rightarrow> string \<Rightarrow> string \<Rightarrow> string \<Rightarrow> string" where
  "spec_computeAssetId md5 idBase type environmentHash uniqueKey pipeline =
     md5 (idBase @ type @ environmentHash @ uniqueKey @ pipeline)"

text \<open>The invalidations that the Flow type \<open>RequestInvalidation\<close> admits.\<close>

definition knownInvalidation :: "RequestInvalidation \<Rightarrow> bool" where
  "knownInvalidation i = (case i of OtherInvalidation t \<Rightarrow> False | _ \<Rightarrow> True)"

text \<open>Sample inputs: a file system with one readable file, and two option records.\<close>

definition sample_fs :: "unit \<Rightarrow> FilePath \<Rightarrow> unit + string" where
  "sample_fs u p = (if p = ''a.js'' then Inr ''0cc1'' else Inl ())"

definition sample_options :: "string AssetOptions" where
  "sample_options =
     \<lparr>opt_id = None, opt_committed = None, opt_hash = None, opt_idBase = None,
      opt_filePath = ''/src/a.js'', opt_type = ''js'', opt_contentKey = None,
      opt_mapKey = None, opt_astKey = None, opt_isIsolated = None, opt_isInline = None,
      opt_isSplittable = None, opt_isSource = True, opt_env = ''browser'',
      opt_outputHash = None, opt_pipeline = None, opt_sideEffects = None,
      opt_uniqueKey = None, opt_plugin = None, opt_configPath = None,
      opt_configKeyPath = None\<rparr>"

definition sample_options' :: "string AssetOptions" where
  "sample_options' =
     sample_options\<lparr>opt_idBase := Some ''/src/a.js'', opt_filePath := ''/virtual'',
                    opt_uniqueKey := Some '''', opt_isSource := False\<rparr>"

text \<open>
  Invariant of a traversal whose callback logs: the log has no repetition and every
  logged node is in the visited set.
\<close>

definition log_ok :: "('s \<times> ref option list) Traversal \<Rightarrow> bool" where
  "log_ok t = (distinct (snd (caller t)) \<and> set (snd (caller t)) \<subseteq> visited t)"

text \<open>A callback that calls neither \<open>skipChildren()\<close> nor \<open>stop()\<close>.\<close>

definition plainVisitor :: "('s, 'c) visitor \<Rightarrow> bool" where
  "plainVisitor visit =
     (\<forall>s n c. \<not> calledSkipChildren (snd (visit s n c)) \<and> \<not> calledStop (snd (visit s n c)))"

text \<open>
  Sample graphs: node objects \<open>0\<close>, \<open>1\<close>, \<open>2\<close>, \<open>3\<close> with the ids \<open>root\<close>, \<open>A\<close>, \<open>B\<close>, \<open>C\<close>,
  the cycle \<open>A \<rightarrow> B \<rightarrow> A\<close>, the paths from \<open>root\<close>, and a callback that only returns.
\<close>

definition sample_heap :: "unit heap" where
  "sample_heap n =
     \<lparr>node_id = (if n = 0 then ''root'' else if n = 1 then ''A''
                 else if n = 2 then ''B'' else ''C''),
      node_value = ()\<rparr>"

definition sample_edge :: "nat \<Rightarrow> NodeId \<Rightarrow> NodeId \<Rightarrow> Edge" where
  "sample_edge i x y = \<lparr>edge_ref = i, edge_from = x, edge_to = y\<rparr>"

definition sample_cycle :: Graph where
  "sample_cycle =
     \<lparr>nodes = [(''A'', 1), (''B'', 2)],
      edges = [sample_edge 0 ''A'' ''B'', sample_edge 1 ''B'' ''A''],
      rootNodeId = None\<rparr>"

definition sample_path :: Graph where
  "sample_path =
     \<lparr>nodes = [(''root'', 0), (''A'', 1), (''B'', 2)],
      edges = [sample_edge 0 ''root'' ''A'', sample_edge 1 ''A'' ''B''],
      rootNodeId = Some ''root''\<rparr>"

definition sample_two_paths :: Graph where
  "sample_two_paths =
     \<lparr>nodes = [(''root'', 0), (''A'', 1), (''B'', 2)],
      edges = [sample_edge 0 ''root'' ''A'', sample_edge 1 ''A'' ''B'',
               sample_edge 2 ''root'' ''B''],
      rootNodeId = Some ''root''\<rparr>"

definition sample_chain :: Graph where
  "sample_chain =
     \<lparr>nodes = [(''root'', 0), (''A'', 1), (''B'', 2), (''C'', 3)],
      edges = [sample_edge 0 ''root'' ''A'', sample_edge 1 ''A'' ''B'',
               sample_edge 2 ''B'' ''C''],
      rootNodeId = Some ''root''\<rparr>"

definition sample_visit :: "(unit, unit) visitor" where
  "sample_visit s n c = (s, \<lparr>returned = None, calledSkipChildren = False, calledStop = False\<rparr>)"

text \<open>
  \<open>shrinks g g'\<close>: the graph \<open>g'\<close> has the root of \<open>g\<close>, and its nodes and edges are those
  of \<open>g\<close> that passed some filter, in the same order. Cascading removal only shrinks
  \<open>this\<close>.
\<close>

definition shrinks :: "Graph \<Rightarrow> Graph \<Rightarrow> bool" where
  "shrinks g g' =
     (rootNodeId g' = rootNodeId g
      \<and> (\<exists>P. nodes g' = filter P (nodes g))
      \<and> (\<exists>Q. edges g' = filter Q (edges g)))"


text \<open>
  What a removal orphans, in the words of the specification. \<open>spec_orphaned g E\<close> is the
  least set of node ids of \<open>g\<close> such that an id belongs to it when its node has an
  incoming edge in \<open>g\<close> and each incoming edge is an edge of \<open>E\<close> or leaves a node whose
  id belongs to the set: the nodes that lose every incoming edge once the edges \<open>E\<close>
  are removed, transitively. A node without incoming edges is never orphaned, and
  neither are the nodes of a cycle that nothing else leads into.
\<close>

inductive_set spec_orphaned :: "Graph \<Rightarrow> Edge set \<Rightarrow> NodeId set"
  for g :: Graph and E :: "Edge set" where
  orphan: "v \<in> fst ` set (nodes g) \<Longrightarrow>
           \<exists>e \<in> set (edges g). edge_to e = v \<Longrightarrow>
           \<forall>e \<in> set (edges g). edge_to e = v \<longrightarrow> e \<in> E \<or> edge_from e \<in> spec_orphaned g E \<Longrightarrow>
           v \<in> spec_orphaned g E"










section \<open>Properties\<close>

subsection \<open>Maps, sets and \<open>merge\<close>\<close>

lemma Map_get_Map_set: "Map_get (Map_set k v m) i = (if i = k then Some v else Map_get m i)"
  by (induction m) auto

lemma rootNodeId_addNode: "rootNodeId (addNode h g n) = rootNodeId g"
  by (simp add: addNode_def)

lemma rootNodeId_addEdge: "rootNodeId (addEdge g e) = rootNodeId g"
  by (simp add: addEdge_def)

lemma foldl_addNode_frame:
  "rootNodeId (foldl (addNode h) g ns) = rootNodeId g \<and> edges (foldl (addNode h) g ns) = edges g"
  by (induction ns arbitrary: g) (simp_all add: addNode_def)

lemma foldl_addEdge_frame:
  "rootNodeId (foldl addEdge g es) = rootNodeId g \<and> nodes (foldl addEdge g es) = nodes g"
  by (induction es arbitrary: g) (simp_all add: addEdge_def)

lemma set_Set_add: "set (Set_add x xs) = insert x (set xs)"
  by (auto simp: Set_add_def)

lemma distinct_Set_add: "distinct xs \<Longrightarrow> distinct (Set_add x xs)"
  by (auto simp: Set_add_def)

lemma edges_foldl_addEdge: "set (edges (foldl addEdge g es)) = set (edges g) \<union> set es"
  by (induction es arbitrary: g) (auto simp: addEdge_def set_Set_add)

lemma distinct_foldl_addEdge: "distinct (edges g) \<Longrightarrow> distinct (edges (foldl addEdge g es))"
  by (induction es arbitrary: g) (auto simp: addEdge_def distinct_Set_add)

lemma nodes_foldl_addNode:
  "Map_get (nodes (foldl (addNode h) g ns)) i =
     (if filter (\<lambda>n. node_id (h n) = i) ns = [] then Map_get (nodes g) i
      else Some (last (filter (\<lambda>n. node_id (h n) = i) ns)))"
proof (induction ns rule: rev_induct)
  case Nil
  then show ?case by simp
next
  case (snoc n ns)
  then show ?case
    by (simp add: addNode_def Map_get_Map_set)
qed

text \<open>
  Claim C9. For all graphs \<open>g\<close> and \<open>graph\<close>, \<open>g.merge(graph)\<close> leaves \<open>g\<close>'s
  \<open>rootNodeId\<close> as it was, whatever the root of \<open>graph\<close> is; afterwards the edge set of
  \<open>g\<close> is the union of the two edge sets, and looking an id up in \<open>g\<close> gives the last
  node of \<open>graph\<close> with that id when there is one (it overwrites) and \<open>g\<close>'s own node
  otherwise.
\<close>

theorem merge_keeps_rootNodeId:
  "rootNodeId (merge h g graph) = rootNodeId g
   \<and> set (edges (merge h g graph)) = set (edges g) \<union> set (edges graph)
   \<and> getNode (merge h g graph) i =
       (if filter (\<lambda>n. node_id (h n) = i) (map snd (nodes graph)) = [] then getNode g i
        else Some (last (filter (\<lambda>n. node_id (h n) = i) (map snd (nodes graph)))))"
  by (simp add: merge_def getNode_def foldl_addEdge_frame foldl_addNode_frame
      edges_foldl_addEdge nodes_foldl_addNode)

text \<open>
  Claim C5, as the code has it. \<open>Set.prototype.add\<close> compares object references:
  \<open>addEdge(e)\<close> is a no-op when the object \<open>e\<close> itself is already in the edge set. An
  edge object that is not in the set is appended to it, whether or not the set holds
  another object with the same \<open>(from, to)\<close> pair: two distinct edge objects with the
  same pair are both kept, and \<open>hasEdge\<close> reports the pair before the second is added.
  After any sequence of \<open>addEdge\<close> calls on a new graph the set holds exactly the
  objects that were added, none of them twice.
\<close>

theorem addEdge_same_object:
  "(e \<in> set (edges g) \<longrightarrow> addEdge g e = g)
   \<and> (e' \<notin> set (edges g) \<longrightarrow> addEdge g e' = g\<lparr>edges := edges g @ [e']\<rparr>)
   \<and> (e \<in> set (edges g) \<and> e' \<noteq> e \<and> edge_from e' = edge_from e \<and> edge_to e' = edge_to e
        \<longrightarrow> hasEdge g e'
          \<and> e \<in> set (edges (addEdge g e')) \<and> e' \<in> set (edges (addEdge g e')))
   \<and> distinct (edges (foldl addEdge emptyGraph es))
   \<and> set (edges (foldl addEdge emptyGraph es)) = set es"
proof -
  have 1: "e \<in> set (edges g) \<longrightarrow> addEdge g e = g"
    by (simp add: addEdge_def Set_add_def)
  have 2: "e' \<notin> set (edges g) \<longrightarrow> addEdge g e' = g\<lparr>edges := edges g @ [e']\<rparr>"
    by (simp add: addEdge_def Set_add_def)
  have 3: "e \<in> set (edges g) \<and> e' \<noteq> e \<and> edge_from e' = edge_from e \<and> edge_to e' = edge_to e
        \<longrightarrow> hasEdge g e'
          \<and> e \<in> set (edges (addEdge g e')) \<and> e' \<in> set (edges (addEdge g e'))"
    by (auto simp: addEdge_def set_Set_add hasEdge_def list_ex_iff)
  have 4: "distinct (edges (foldl addEdge emptyGraph es))"
    by (simp add: distinct_foldl_addEdge emptyGraph_def)
  have 5: "set (edges (foldl addEdge emptyGraph es)) = set es"
    by (simp add: edges_foldl_addEdge emptyGraph_def)
  from 1 2 3 4 5 show ?thesis by blast
qed

theorem addEdge_same_object_witness:
  "sample_edge 0 ''a'' ''b'' \<in> set (edges (addEdge emptyGraph (sample_edge 0 ''a'' ''b'')))
   \<and> sample_edge 1 ''a'' ''b'' \<notin> set (edges (addEdge emptyGraph (sample_edge 0 ''a'' ''b'')))
   \<and> sample_edge 1 ''a'' ''b'' \<noteq> sample_edge 0 ''a'' ''b''
   \<and> edge_from (sample_edge 1 ''a'' ''b'') = edge_from (sample_edge 0 ''a'' ''b'')
   \<and> edge_to (sample_edge 1 ''a'' ''b'') = edge_to (sample_edge 0 ''a'' ''b'')
   \<and> addEdge (addEdge emptyGraph (sample_edge 0 ''a'' ''b'')) (sample_edge 0 ''a'' ''b'')
       = addEdge emptyGraph (sample_edge 0 ''a'' ''b'')
   \<and> addEdge (addEdge emptyGraph (sample_edge 0 ''a'' ''b'')) (sample_edge 1 ''a'' ''b'')
       = \<lparr>nodes = [], edges = [sample_edge 0 ''a'' ''b'', sample_edge 1 ''a'' ''b''],
          rootNodeId = None\<rparr>
   \<and> hasEdge (addEdge emptyGraph (sample_edge 0 ''a'' ''b'')) (sample_edge 1 ''a'' ''b'')"
proof -
  have g: "addEdge emptyGraph (sample_edge 0 ''a'' ''b'')
           = \<lparr>nodes = [], edges = [sample_edge 0 ''a'' ''b''], rootNodeId = None\<rparr>"
    by (simp add: addEdge_def emptyGraph_def Set_add_def)
  have h: "sample_edge 0 ''a'' ''b'' \<in> set (edges (addEdge emptyGraph (sample_edge 0 ''a'' ''b'')))"
    "sample_edge 1 ''a'' ''b'' \<notin> set (edges (addEdge emptyGraph (sample_edge 0 ''a'' ''b'')))"
    "sample_edge 1 ''a'' ''b'' \<noteq> sample_edge 0 ''a'' ''b''"
    "edge_from (sample_edge 1 ''a'' ''b'') = edge_from (sample_edge 0 ''a'' ''b'')"
    "edge_to (sample_edge 1 ''a'' ''b'') = edge_to (sample_edge 0 ''a'' ''b'')"
    by (simp_all add: addEdge_def emptyGraph_def Set_add_def sample_edge_def)
  from addEdge_same_object
    [of "sample_edge 0 ''a'' ''b''" "addEdge emptyGraph (sample_edge 0 ''a'' ''b'')"
        "sample_edge 1 ''a'' ''b''" "[]"] h
  show ?thesis by (simp add: g)
qed

text \<open>
  A second edge object with the same \<open>(from, to)\<close> pair is not the same object: adding
  it to a graph that \<open>hasEdge\<close> reports the pair for puts the pair into the set twice.
\<close>

theorem addEdge_duplicate_pair_counterexample:
  "hasEdge (addEdge emptyGraph \<lparr>edge_ref = 0, edge_from = ''a'', edge_to = ''b''\<rparr>)
           \<lparr>edge_ref = 1, edge_from = ''a'', edge_to = ''b''\<rparr>
   \<and> edges (addEdge (addEdge emptyGraph \<lparr>edge_ref = 0, edge_from = ''a'', edge_to = ''b''\<rparr>)
                    \<lparr>edge_ref = 1, edge_from = ''a'', edge_to = ''b''\<rparr>)
     = [\<lparr>edge_ref = 0, edge_from = ''a'', edge_to = ''b''\<rparr>,
        \<lparr>edge_ref = 1, edge_from = ''a'', edge_to = ''b''\<rparr>]"
  by (simp add: addEdge_def hasEdge_def emptyGraph_def Set_add_def)

subsection \<open>Traversal\<close>

text \<open>
  Claim C10. For every graph whose \<open>rootNodeId\<close> is unset, \<open>traverse\<close> without a start
  node and \<open>bfs\<close> both return no node, whatever the fuel, and leave the callback's
  state as it was: the callback is never invoked.
\<close>

theorem no_root_no_visit:
  "rootNodeId g = None \<Longrightarrow>
     traverse k h g visit None s = Some (Inr (s, None))
     \<and> bfs k h g bvisit s' = Some (Inr (s', None))"
  by (simp add: traverse_def dfs_def bfs_def getRootNode_def)

theorem no_root_no_visit_witness:
  "rootNodeId emptyGraph = None
   \<and> traverse 0 (\<lambda>_. \<lparr>node_id = ''n'', node_value = ()\<rparr>) emptyGraph
        (logging (\<lambda>s n (c :: unit option).
           (s, \<lparr>returned = None, calledSkipChildren = False, calledStop = False\<rparr>)))
        None ((), []) = Some (Inr (((), []), None))
   \<and> bfs 0 (\<lambda>_. \<lparr>node_id = ''n'', node_value = ()\<rparr>) emptyGraph
        (\<lambda>log n. (log @ [n], None)) [] = Some (Inr ([], None))"
proof -
  have r: "rootNodeId emptyGraph = None" by (simp add: emptyGraph_def)
  show ?thesis using r no_root_no_visit [OF r] by simp
qed

subsection \<open>Asset ids and invalidation hashes\<close>

text \<open>
  Claim C7. When no explicit id is supplied, the id that \<open>createAsset\<close> computes is the
  digest of idBase, type, environment hash, uniqueKey and pipeline concatenated in this
  order, where idBase is \<open>filePath\<close> unless overridden and an absent uniqueKey or pipeline
  counts as the empty string; any other call without an explicit id whose five inputs
  are the same returns the same id, whatever its remaining options are.
\<close>

theorem createAsset_id_deterministic:
  assumes "opt_id options = None"
  shows "asset_id (createAsset md5 envHash options) =
           spec_computeAssetId md5
             (orElse (opt_idBase options) (opt_filePath options))
             (opt_type options)
             (envHash (opt_env options))
             (orElse (opt_uniqueKey options) '''')
             (orElse (opt_pipeline options) '''')
         \<and> (opt_id options' = None
              \<and> orElse (opt_idBase options') (opt_filePath options')
                  = orElse (opt_idBase options) (opt_filePath options)
              \<and> opt_type options' = opt_type options
              \<and> envHash (opt_env options') = envHash (opt_env options)
              \<and> orElse (opt_uniqueKey options') '''' = orElse (opt_uniqueKey options) ''''
              \<and> orElse (opt_pipeline options') '''' = orElse (opt_pipeline options) ''''
            \<longrightarrow> asset_id (createAsset md5 envHash options')
                = asset_id (createAsset md5 envHash options))"
  using assms
  by (auto simp: createAsset_def spec_computeAssetId_def orElse_def Let_def split: option.splits)

theorem createAsset_id_deterministic_witness:
  "opt_id sample_options = None \<and> opt_id sample_options' = None
   \<and> asset_id (createAsset (\<lambda>d. d) (\<lambda>e. ''['' @ e @ '']'') sample_options)
       = ''/src/a.jsjs[browser]''
   \<and> asset_id (createAsset (\<lambda>d. d) (\<lambda>e. ''['' @ e @ '']'') sample_options')
       = asset_id (createAsset (\<lambda>d. d) (\<lambda>e. ''['' @ e @ '']'') sample_options)"
proof -
  have n: "opt_id sample_options = None"
    by (simp add: sample_options_def)
  show ?thesis
    using n createAsset_id_deterministic
      [OF n, of "\<lambda>d. d" "\<lambda>e. ''['' @ e @ '']''" sample_options']
    by (simp add: sample_options'_def sample_options_def orElse_def spec_computeAssetId_def)
qed

lemma getInvalidationId_known:
  "knownInvalidation a \<Longrightarrow> \<exists>i. (getInvalidationId a :: 'e failure + string) = Inr i"
  by (cases a) (simp_all add: getInvalidationId_def knownInvalidation_def)

lemma getInvalidationId_inj:
  "(getInvalidationId a :: 'e failure + string) = Inr i \<Longrightarrow>
   (getInvalidationId b :: 'e failure + string) = Inr i \<Longrightarrow> a = b"
  by (cases a; cases b) (auto simp: getInvalidationId_def)

text \<open>
  Claim C6. For every two invalidations \<open>a\<close> and \<open>b\<close> (of the file or the environment
  kind), with the digests of the files and the environment held fixed,
  \<open>getInvalidationHash([a, b])\<close> and \<open>getInvalidationHash([b, a])\<close> have the same outcome:
  the same hash string, or the same rejection when a file cannot be read.
\<close>

theorem getInvalidationHash_order_independent:
  assumes "knownInvalidation a" and "knownInvalidation b"
  shows "getInvalidationHash md5_hex md5FromFilePath inputFS env [a, b]
         = (getInvalidationHash md5_hex md5FromFilePath inputFS env [b, a] :: 'e failure + string)"
proof -
  obtain ia where ia: "(getInvalidationId a :: 'e failure + string) = Inr ia"
    using getInvalidationId_known [OF assms(1)] by blast
  obtain ib where ib: "(getInvalidationId b :: 'e failure + string) = Inr ib"
    using getInvalidationId_known [OF assms(2)] by blast
  consider (lt) "ia < ib" | (gt) "ib < ia" | (eq) "ia = ib"
    by (meson linorder_cases)
  then show ?thesis
  proof cases
    case lt
    then have "\<not> ib < ia" by simp
    with lt ia ib show ?thesis
      by (simp add: getInvalidationHash_def array_sort_def compareInvalidations_def)
  next
    case gt
    then have "\<not> ia < ib" by simp
    with gt ia ib show ?thesis
      by (simp add: getInvalidationHash_def array_sort_def compareInvalidations_def)
  next
    case eq
    with ia ib have "a = b" using getInvalidationId_inj by blast
    then show ?thesis by simp
  qed
qed

theorem getInvalidationHash_order_independent_witness:
  "knownInvalidation (FileInvalidation ''a.js'') \<and> knownInvalidation (EnvInvalidation ''NODE_ENV'')
   \<and> getInvalidationHash (\<lambda>d. d) sample_fs () [''NODE_ENV'' \<mapsto> ''test'']
        [FileInvalidation ''a.js'', EnvInvalidation ''NODE_ENV'']
     = getInvalidationHash (\<lambda>d. d) sample_fs () [''NODE_ENV'' \<mapsto> ''test'']
        [EnvInvalidation ''NODE_ENV'', FileInvalidation ''a.js'']
   \<and> getInvalidationHash (\<lambda>d. d) sample_fs () [''NODE_ENV'' \<mapsto> ''test'']
        [EnvInvalidation ''NODE_ENV'', FileInvalidation ''a.js'']
     = Inr ''NODE_ENV:test0cc1''"
proof -
  have k: "knownInvalidation (FileInvalidation ''a.js'')"
          "knownInvalidation (EnvInvalidation ''NODE_ENV'')"
    by (simp_all add: knownInvalidation_def)
  have r: "getInvalidationHash (\<lambda>d. d) sample_fs () [''NODE_ENV'' \<mapsto> ''test'']
        [EnvInvalidation ''NODE_ENV'', FileInvalidation ''a.js'']
     = Inr ''NODE_ENV:test0cc1''"
    by (simp add: getInvalidationHash_def array_sort_def compareInvalidations_def
        getInvalidationId_def sample_fs_def orElse_def less_char_def)
  show ?thesis
    using k r getInvalidationHash_order_independent
      [OF k, of "\<lambda>d. d" sample_fs "()" "[''NODE_ENV'' \<mapsto> ''test'']"]
    by simp
qed

subsection \<open>Depth-first traversal visits no node twice\<close>


lemma walk_children_log_ok:
  assumes W: "\<And>node ctx t t' r. walk k V gc node ctx t = Some (Inr (t', r)) \<Longrightarrow>
                distinct (snd (caller t)) \<Longrightarrow> node \<notin> set (snd (caller t)) \<Longrightarrow>
                set (snd (caller t)) \<subseteq> insert node (visited t) \<Longrightarrow> log_ok t'"
  shows "walk_children k V gc cs ctx t = Some (Inr (t', r)) \<Longrightarrow> log_ok t \<Longrightarrow> log_ok t'"
proof (induction cs arbitrary: t)
  case Nil
  then show ?case by simp
next
  case (Cons child cs)
  show ?case
  proof (cases "child \<in> visited t")
    case True
    with Cons show ?thesis by simp
  next
    case False
    let ?t1 = "t\<lparr>visited := insert child (visited t)\<rparr>"
    from False Cons.prems(1) obtain t1 r1 where
      w: "walk k V gc child ctx ?t1 = Some (Inr (t1, r1))"
      and rest: "stopped t1 \<and> t' = t1 \<or> walk_children k V gc cs ctx t1 = Some (Inr (t', r))"
      by (auto split: option.splits sum.splits if_splits)
    have "log_ok t1"
      using W [OF w] Cons.prems(2) False by (auto simp: log_ok_def)
    with rest Cons.IH show ?thesis by blast
  qed
qed

lemma walk_log_ok:
  assumes L: "\<And>st n c. snd (fst (V st n c)) = snd st @ [n]"
  shows "walk k V gc node ctx t = Some (Inr (t', r)) \<Longrightarrow>
         distinct (snd (caller t)) \<Longrightarrow> node \<notin> set (snd (caller t)) \<Longrightarrow>
         set (snd (caller t)) \<subseteq> insert node (visited t) \<Longrightarrow> log_ok t'"
proof (induction k arbitrary: node ctx t t' r)
  case 0
  then show ?case by simp
next
  case (Suc k)
  obtain s' out where v: "V (caller t) node ctx = (s', out)"
    by (cases "V (caller t) node ctx") auto
  have s': "snd s' = snd (caller t) @ [node]"
    using L [of "caller t" node ctx] v by simp
  let ?t2 = "t\<lparr>visited := insert node (visited t), caller := s',
                skipped := calledSkipChildren out, stopped := stopped t \<or> calledStop out\<rparr>"
  have pre: "log_ok ?t2"
    using Suc.prems(2,3,4) s' by (auto simp: log_ok_def)
  show ?case
  proof (cases "calledSkipChildren out \<or> stopped t \<or> calledStop out")
    case True
    then show ?thesis using Suc.prems(1) v pre by (auto simp: log_ok_def Let_def split: if_splits)
  next
    case False
    then obtain cs where cs: "gc node = Inr cs"
      and w: "walk_children k V gc cs
                 (case returned out of None \<Rightarrow> ctx | Some c \<Rightarrow> Some c) ?t2 = Some (Inr (t', r))"
      using Suc.prems(1) v by (auto simp: Let_def split: sum.splits)
    show ?thesis
    proof (rule walk_children_log_ok [OF _ w pre])
      fix n c u u' q
      assume "walk k V gc n c u = Some (Inr (u', q))" "distinct (snd (caller u))"
        "n \<notin> set (snd (caller u))" "set (snd (caller u)) \<subseteq> insert n (visited u)"
      then show "log_ok u'" by (rule Suc.IH)
    qed
  qed
qed

lemma logging_appends: "snd (fst (logging visit st n c)) = snd st @ [n]"
  by (cases st) (simp add: logging_def split: prod.splits)

lemma dfs_never_revisits:
  "dfs k g (logging visit) startNode gc (s, []) = Some (Inr ((s', log), r)) \<Longrightarrow> distinct log"
proof -
  assume d: "dfs k g (logging visit) startNode gc (s, []) = Some (Inr ((s', log), r))"
  show "distinct log"
  proof (cases "case startNode of Some n \<Rightarrow> Some n | None \<Rightarrow> getRootNode g")
    case None
    with d show ?thesis by (simp add: dfs_def)
  next
    case (Some root)
    with d obtain t' where
      w: "walk k (logging visit) gc (Some root) None
            \<lparr>visited = {}, stopped = False, skipped = False, caller = (s, [])\<rparr> = Some (Inr (t', r))"
      and c: "caller t' = (s', log)"
      by (auto simp: dfs_def split: option.splits sum.splits)
    have "log_ok t'"
      by (rule walk_log_ok [OF logging_appends w]) simp_all
    with c show ?thesis by (simp add: log_ok_def)
  qed
qed


lemma two_cycle_children:
  assumes "a \<noteq> b" "node_id (h ra) = a" "node_id (h rb) = b"
    and "getNode g a = Some ra" "getNode g b = Some rb"
    and "map (\<lambda>e. (edge_from e, edge_to e)) (edges g) = [(a, b), (b, a)]
         \<or> map (\<lambda>e. (edge_from e, edge_to e)) (edges g) = [(b, a), (a, b)]"
  shows "childrenFrom h g (Some ra) = Inr [Some rb]" and "childrenFrom h g (Some rb) = Inr [Some ra]"
proof -
  from assms(6) obtain e1 e2 where e: "edges g = [e1, e2]"
    by (cases "edges g"; cases "tl (edges g)") auto
  with assms show "childrenFrom h g (Some ra) = Inr [Some rb]"
    and "childrenFrom h g (Some rb) = Inr [Some ra]"
    by (auto simp: childrenFrom_def getNodesConnectedFrom_def getNode_def)
qed

text \<open>
  Claim C8. In a graph whose nodes \<open>A\<close> and \<open>B\<close> are joined by exactly the edges
  \<open>(A,B)\<close> and \<open>(B,A)\<close>, in either insertion order, \<open>traverse\<close> from \<open>A\<close> returns
  with two units of fuel for every callback, without error, and hands the callback
  \<open>A\<close> once and then at most \<open>B\<close> once; with a callback that neither skips nor
  stops it hands it exactly \<open>A\<close> and then \<open>B\<close>, and returns \<open>undefined\<close>. In every
  graph and with every callback, the nodes a finished \<open>dfs\<close> has handed to the
  callback are pairwise distinct: no node is visited twice.
\<close>

theorem traverse_cycle_once:
  assumes "a \<noteq> b" "node_id (h ra) = a" "node_id (h rb) = b"
    and "getNode g a = Some ra" "getNode g b = Some rb"
    and "map (\<lambda>e. (edge_from e, edge_to e)) (edges g) = [(a, b), (b, a)]
         \<or> map (\<lambda>e. (edge_from e, edge_to e)) (edges g) = [(b, a), (a, b)]"
  shows "(\<exists>s' log r. traverse (Suc (Suc k)) h g (logging visit) (Some ra) (s, [])
                        = Some (Inr ((s', log), r))
                    \<and> (log = [Some ra] \<or> log = [Some ra, Some rb]))
       \<and> (plainVisitor visit \<longrightarrow>
            traverse (Suc (Suc k)) h g (logging visit) (Some ra) (s, [])
            = Some (Inr ((fst (visit (fst (visit s (Some ra) None)) (Some rb)
                                 (returned (snd (visit s (Some ra) None)))),
                          [Some ra, Some rb]), None)))
       \<and> (\<forall>k' g' start gc s' log r.
             dfs k' g' (logging visit) start gc (s, []) = Some (Inr ((s', log), r))
             \<longrightarrow> distinct log)"
proof -
  have ne: "ra \<noteq> rb" using assms(1-3) by auto
  note ch = two_cycle_children [OF assms]
  obtain s1 o1 where v1: "visit s (Some ra) None = (s1, o1)"
    by (cases "visit s (Some ra) None") auto
  obtain s2 o2 where v2: "visit s1 (Some rb) (returned o1) = (s2, o2)"
    by (cases "visit s1 (Some rb) (returned o1)") auto
  have ctx: "(case returned o1 of None \<Rightarrow> None | Some c \<Rightarrow> Some c) = returned o1"
    by (cases "returned o1") auto
  have 1: "\<exists>s' log r. traverse (Suc (Suc k)) h g (logging visit) (Some ra) (s, [])
                        = Some (Inr ((s', log), r))
                    \<and> (log = [Some ra] \<or> log = [Some ra, Some rb])"
    using ne v1 v2 ch
    by (simp add: traverse_def dfs_def logging_def Let_def ctx)
  have 2: "plainVisitor visit \<longrightarrow>
            traverse (Suc (Suc k)) h g (logging visit) (Some ra) (s, [])
            = Some (Inr ((fst (visit (fst (visit s (Some ra) None)) (Some rb)
                                 (returned (snd (visit s (Some ra) None)))),
                          [Some ra, Some rb]), None))"
  proof
    assume p: "plainVisitor visit"
    have "\<not> calledSkipChildren o1" "\<not> calledStop o1" "\<not> calledSkipChildren o2" "\<not> calledStop o2"
      using p v1 v2 unfolding plainVisitor_def by (metis snd_conv)+
    then show "traverse (Suc (Suc k)) h g (logging visit) (Some ra) (s, [])
            = Some (Inr ((fst (visit (fst (visit s (Some ra) None)) (Some rb)
                                 (returned (snd (visit s (Some ra) None)))),
                          [Some ra, Some rb]), None))"
      using ne v1 v2 ch
      by (simp add: traverse_def dfs_def logging_def Let_def ctx)
  qed
  have 3: "\<forall>k' g' start gc s' log r.
             dfs k' g' (logging visit) start gc (s, []) = Some (Inr ((s', log), r))
             \<longrightarrow> distinct log"
    by (intro allI impI) (rule dfs_never_revisits)
  from 1 2 3 show ?thesis by blast
qed

theorem traverse_cycle_once_witness:
  "''A'' \<noteq> ''B'' \<and> node_id (sample_heap 1) = ''A'' \<and> node_id (sample_heap 2) = ''B''
   \<and> getNode sample_cycle ''A'' = Some 1 \<and> getNode sample_cycle ''B'' = Some 2
   \<and> map (\<lambda>e. (edge_from e, edge_to e)) (edges sample_cycle) = [(''A'', ''B''), (''B'', ''A'')]
   \<and> plainVisitor sample_visit
   \<and> traverse 2 sample_heap sample_cycle (logging sample_visit) (Some 1) ((), [])
       = Some (Inr (((), [Some 1, Some 2]), None))"
proof -
  have h: "''A'' \<noteq> ''B''" "node_id (sample_heap 1) = ''A''" "node_id (sample_heap 2) = ''B''"
    "getNode sample_cycle ''A'' = Some 1" "getNode sample_cycle ''B'' = Some 2"
    by (simp_all add: sample_heap_def sample_cycle_def getNode_def)
  have e: "map (\<lambda>e. (edge_from e, edge_to e)) (edges sample_cycle) = [(''A'', ''B''), (''B'', ''A'')]"
    by (simp add: sample_cycle_def sample_edge_def)
  have p: "plainVisitor sample_visit"
    by (simp add: plainVisitor_def sample_visit_def)
  from e have e': "map (\<lambda>e. (edge_from e, edge_to e)) (edges sample_cycle) = [(''A'', ''B''), (''B'', ''A'')]
      \<or> map (\<lambda>e. (edge_from e, edge_to e)) (edges sample_cycle) = [(''B'', ''A''), (''A'', ''B'')]"
    by blast
  show ?thesis
    using h e p traverse_cycle_once [OF h e', of 0 sample_visit "()"]
    by (simp add: numeral_2_eq_2 sample_visit_def)
qed

subsection \<open>Cascading removal only shrinks the graph\<close>

lemma shrinks_refl: "shrinks g g"
  unfolding shrinks_def by (intro conjI exI [where x = "\<lambda>_. True"]) simp_all

lemma shrinks_trans: "shrinks g g' \<Longrightarrow> shrinks g' g'' \<Longrightarrow> shrinks g g''"
proof -
  assume a: "shrinks g g'" and b: "shrinks g' g''"
  from a obtain P Q where 1: "nodes g' = filter P (nodes g)" "edges g' = filter Q (edges g)"
    unfolding shrinks_def by blast
  from b obtain P' Q' where 2: "nodes g'' = filter P' (nodes g')" "edges g'' = filter Q' (edges g')"
    unfolding shrinks_def by blast
  have "nodes g'' = filter (\<lambda>x. P x \<and> P' x) (nodes g)"
    "edges g'' = filter (\<lambda>x. Q x \<and> Q' x) (edges g)"
    using 1 2 by simp_all
  moreover have "rootNodeId g'' = rootNodeId g"
    using a b unfolding shrinks_def by simp
  ultimately show ?thesis unfolding shrinks_def by blast
qed

lemma shrinks_delete_node: "shrinks g (g\<lparr>nodes := Map_delete i (nodes g)\<rparr>)"
  unfolding shrinks_def Map_delete_def
  by (intro conjI exI [where x = "\<lambda>p. fst p \<noteq> i"] exI [where x = "\<lambda>_. True"]) simp_all

lemma shrinks_delete_edge: "shrinks g (g\<lparr>edges := Set_delete e (edges g)\<rparr>)"
  unfolding shrinks_def Set_delete_def
  by (intro conjI exI [where x = "\<lambda>x. e \<noteq> x"] exI [where x = "\<lambda>_. True"])
     (simp_all add: removeAll_filter_not_eq)

lemma shrinks_nodes: "shrinks g g' \<Longrightarrow> set (nodes g') \<subseteq> set (nodes g)"
  unfolding shrinks_def by auto

lemma shrinks_edges: "shrinks g g' \<Longrightarrow> set (edges g') \<subseteq> set (edges g)"
  unfolding shrinks_def by auto

lemma shrinks_length_edges: "shrinks g g' \<Longrightarrow> length (edges g') \<le> length (edges g)"
  unfolding shrinks_def by auto

lemma shrinks_root: "shrinks g g' \<Longrightarrow> rootNodeId g' = rootNodeId g"
  unfolding shrinks_def by auto


lemma removeNode_loop_shrinks:
  assumes E: "\<And>g e g' r. removeEdge k h g e = Some (g', r) \<Longrightarrow> shrinks g g'"
  shows "removeNode_loop k h n es g rem = Some (g', r') \<Longrightarrow> shrinks g g'"
proof (induction es arbitrary: g rem)
  case Nil
  then show ?case by (simp add: shrinks_refl)
next
  case (Cons edge es)
  show ?case
  proof (cases "edge \<in> set (edges g)
         \<and> (edge_from edge = node_id (h n) \<or> edge_to edge = node_id (h n))")
    case True
    with Cons.prems obtain g1 r1 where
      1: "removeEdge k h g edge = Some (g1, r1)"
      and 2: "removeNode_loop k h n es g1 (merge h rem r1) = Some (g', r')"
      by (auto split: option.splits)
    from E [OF 1] Cons.IH [OF 2] show ?thesis by (rule shrinks_trans)
  next
    case False
    with Cons.prems have "removeNode_loop k h n es g rem = Some (g', r')" by auto
    then show ?thesis by (rule Cons.IH)
  qed
qed

lemma removeEdge_loop_shrinks:
  assumes N: "\<And>g n g' r. removeNode k h g n = Some (g', r) \<Longrightarrow> shrinks g g'"
  shows "removeEdge_loop k h e ps g rem = Some (g', r') \<Longrightarrow> shrinks g g'"
proof (induction ps arbitrary: g rem)
  case Nil
  then show ?case by (simp add: shrinks_refl)
next
  case (Cons p ps)
  show ?case
  proof (cases "p \<in> set (nodes g) \<and> edge_to e = fst p \<and> isOrphanedNode h g (snd p)")
    case True
    with Cons.prems obtain g1 r1 where
      1: "removeNode k h g (snd p) = Some (g1, r1)"
      and 2: "removeEdge_loop k h e ps g1 (merge h rem r1) = Some (g', r')"
      by (auto split: option.splits)
    from N [OF 1] Cons.IH [OF 2] show ?thesis by (rule shrinks_trans)
  next
    case False
    with Cons.prems have "removeEdge_loop k h e ps g rem = Some (g', r')" by auto
    then show ?thesis by (rule Cons.IH)
  qed
qed

lemma remove_shrinks:
  "(\<forall>g n g' r. removeNode k h g n = Some (g', r) \<longrightarrow> shrinks g g')
   \<and> (\<forall>g e g' r. removeEdge k h g e = Some (g', r) \<longrightarrow> shrinks g g')"
proof (induction k)
  case 0
  then show ?case by simp
next
  case (Suc k)
  have N: "shrinks g g'" if "removeNode (Suc k) h g n = Some (g', r)" for g n g' r
  proof -
    let ?g1 = "g\<lparr>nodes := Map_delete (node_id (h n)) (nodes g)\<rparr>"
    from that have "removeNode_loop k h n (edges g) ?g1 (addNode h emptyGraph n) = Some (g', r)"
      by (simp add: Let_def)
    then have "shrinks ?g1 g'"
      by (rule removeNode_loop_shrinks [rotated]) (use Suc in blast)
    with shrinks_delete_node show ?thesis by (rule shrinks_trans)
  qed
  have E: "shrinks g g'" if "removeEdge (Suc k) h g e = Some (g', r)" for g e g' r
  proof -
    let ?g1 = "g\<lparr>edges := Set_delete e (edges g)\<rparr>"
    from that have "removeEdge_loop k h e (nodes g) ?g1 (addEdge emptyGraph e) = Some (g', r)"
      by (simp add: Let_def)
    then have "shrinks ?g1 g'"
      by (rule removeEdge_loop_shrinks [rotated]) (use Suc in blast)
    with shrinks_delete_edge show ?thesis by (rule shrinks_trans)
  qed
  from N E show ?case by blast
qed

lemmas removeNode_shrinks = remove_shrinks [THEN conjunct1, rule_format]
lemmas removeEdge_shrinks = remove_shrinks [THEN conjunct2, rule_format]


subsection \<open>Enough fuel\<close>

lemma length_Set_delete: "e \<in> set es \<Longrightarrow> length (Set_delete e es) < length es"
  unfolding Set_delete_def by (induction es) (auto simp: less_Suc_eq_le length_removeAll_less_eq)

lemma removeNode_loop_returns:
  assumes E: "\<And>g e. 2 * length (Set_delete e (edges g)) + 2 \<le> k \<Longrightarrow>
                \<exists>res. removeEdge k h g e = Some res"
  shows "2 * length (edges g) \<le> k \<Longrightarrow> \<exists>res. removeNode_loop k h n es g rem = Some res"
proof (induction es arbitrary: g rem)
  case Nil
  then show ?case by simp
next
  case (Cons edge es)
  show ?case
  proof (cases "edge \<in> set (edges g)
         \<and> (edge_from edge = node_id (h n) \<or> edge_to edge = node_id (h n))")
    case True
    then have "2 * length (Set_delete edge (edges g)) + 2 \<le> k"
      using length_Set_delete [of edge "edges g"] Cons.prems by simp
    from E [OF this] obtain g1 r1 where 1: "removeEdge k h g edge = Some (g1, r1)"
      by auto
    have "2 * length (edges g1) \<le> k"
      using shrinks_length_edges [OF removeEdge_shrinks [OF 1]] Cons.prems by simp
    from Cons.IH [OF this] True 1 show ?thesis by simp
  next
    case False
    with Cons.IH [OF Cons.prems] show ?thesis by auto
  qed
qed

lemma removeEdge_loop_returns:
  assumes N: "\<And>g n. 2 * length (edges g) + 1 \<le> k \<Longrightarrow> \<exists>res. removeNode k h g n = Some res"
  shows "2 * length (edges g) + 1 \<le> k \<Longrightarrow> \<exists>res. removeEdge_loop k h e ps g rem = Some res"
proof (induction ps arbitrary: g rem)
  case Nil
  then show ?case by simp
next
  case (Cons p ps)
  show ?case
  proof (cases "p \<in> set (nodes g) \<and> edge_to e = fst p \<and> isOrphanedNode h g (snd p)")
    case True
    from N [OF Cons.prems, of "snd p"] obtain g1 r1 where
      1: "removeNode k h g (snd p) = Some (g1, r1)"
      by auto
    have "2 * length (edges g1) + 1 \<le> k"
      using shrinks_length_edges [OF removeNode_shrinks [OF 1]] Cons.prems by simp
    from Cons.IH [OF this] True 1 show ?thesis by simp
  next
    case False
    with Cons.IH [OF Cons.prems] show ?thesis by auto
  qed
qed

lemma remove_returns:
  "(\<forall>g n. 2 * length (edges g) + 1 \<le> k \<longrightarrow> (\<exists>res. removeNode k h g n = Some res))
   \<and> (\<forall>g e. 2 * length (Set_delete e (edges g)) + 2 \<le> k
           \<longrightarrow> (\<exists>res. removeEdge k h g e = Some res))"
proof (induction k)
  case 0
  then show ?case by simp
next
  case (Suc k)
  have N: "\<exists>res. removeNode (Suc k) h g n = Some res" if "2 * length (edges g) + 1 \<le> Suc k" for g n
  proof -
    let ?g1 = "g\<lparr>nodes := Map_delete (node_id (h n)) (nodes g)\<rparr>"
    have "2 * length (edges ?g1) \<le> k" using that by simp
    then have "\<exists>res. removeNode_loop k h n (edges g) ?g1 (addNode h emptyGraph n) = Some res"
      by (rule removeNode_loop_returns [rotated]) (use Suc in blast)
    then show ?thesis by (simp add: Let_def)
  qed
  have E: "\<exists>res. removeEdge (Suc k) h g e = Some res"
    if "2 * length (Set_delete e (edges g)) + 2 \<le> Suc k" for g e
  proof -
    let ?g1 = "g\<lparr>edges := Set_delete e (edges g)\<rparr>"
    have "2 * length (edges ?g1) + 1 \<le> k" using that by simp
    then have "\<exists>res. removeEdge_loop k h e (nodes g) ?g1 (addEdge emptyGraph e) = Some res"
      by (rule removeEdge_loop_returns [rotated]) (use Suc in blast)
    then show ?thesis by (simp add: Let_def)
  qed
  from N E show ?case by blast
qed

lemma removeNode_returns:
  "2 * length (edges g) + 1 \<le> k \<Longrightarrow> \<exists>g' r. removeNode k h g n = Some (g', r)"
  using remove_returns [of k h] by (metis surj_pair)




subsection \<open>Removing a node twice\<close>

lemma removeNode_loop_shrinks':
  assumes "removeNode_loop k h n es g rem = Some (g', r')"
  shows "shrinks g g'"
proof (rule removeNode_loop_shrinks [OF _ assms])
  fix g e g' r
  assume "removeEdge k h g e = Some (g', r)"
  then show "shrinks g g'" by (rule removeEdge_shrinks)
qed

lemma removeEdge_loop_shrinks':
  assumes "removeEdge_loop k h e ps g rem = Some (g', r')"
  shows "shrinks g g'"
proof (rule removeEdge_loop_shrinks [OF _ assms])
  fix g n g' r
  assume "removeNode k h g n = Some (g', r)"
  then show "shrinks g g'" by (rule removeNode_shrinks)
qed

lemma removeEdge_deletes:
  "removeEdge k h g e = Some (g', r) \<Longrightarrow> e \<notin> set (edges g')"
proof (cases k)
  case 0
  then show "removeEdge k h g e = Some (g', r) \<Longrightarrow> e \<notin> set (edges g')" by simp
next
  case (Suc j)
  assume a: "removeEdge k h g e = Some (g', r)"
  let ?g1 = "g\<lparr>edges := Set_delete e (edges g)\<rparr>"
  from a Suc have "removeEdge_loop j h e (nodes g) ?g1 (addEdge emptyGraph e) = Some (g', r)"
    by (simp add: Let_def)
  then have "shrinks ?g1 g'"
    by (rule removeEdge_loop_shrinks')
  then have "set (edges g') \<subseteq> set (edges ?g1)" by (rule shrinks_edges)
  then show "e \<notin> set (edges g')" by (auto simp: Set_delete_def)
qed

lemma removeNode_loop_clears:
  "removeNode_loop k h n es g rem = Some (g', r') \<Longrightarrow>
   \<forall>e \<in> set es. e \<in> set (edges g') \<longrightarrow>
     edge_from e \<noteq> node_id (h n) \<and> edge_to e \<noteq> node_id (h n)"
proof (induction es arbitrary: g rem)
  case Nil
  then show ?case by simp
next
  case (Cons edge es)
  show ?case
  proof (cases "edge \<in> set (edges g)
         \<and> (edge_from edge = node_id (h n) \<or> edge_to edge = node_id (h n))")
    case True
    with Cons.prems obtain g1 r1 where
      1: "removeEdge k h g edge = Some (g1, r1)"
      and 2: "removeNode_loop k h n es g1 (merge h rem r1) = Some (g', r')"
      by (auto split: option.splits)
    have "edge \<notin> set (edges g1)" using 1 by (rule removeEdge_deletes)
    then have "edge \<notin> set (edges g')"
      using shrinks_edges [OF removeNode_loop_shrinks' [OF 2]] by auto
    with Cons.IH [OF 2] show ?thesis by simp
  next
    case False
    with Cons.prems have 2: "removeNode_loop k h n es g rem = Some (g', r')" by auto
    have "edge \<in> set (edges g') \<Longrightarrow> edge \<in> set (edges g)"
      using shrinks_edges [OF removeNode_loop_shrinks' [OF 2]] by auto
    with False Cons.IH [OF 2] show ?thesis by auto
  qed
qed

lemma removeNode_loop_untouched:
  "\<forall>e \<in> set es. e \<in> set (edges g) \<longrightarrow>
      edge_from e \<noteq> node_id (h n) \<and> edge_to e \<noteq> node_id (h n) \<Longrightarrow>
   removeNode_loop k h n es g rem = Some (g, rem)"
  by (induction es) auto

lemma Map_delete_absent: "k \<notin> fst ` set m \<Longrightarrow> Map_delete k m = m"
  unfolding Map_delete_def by (induction m) auto

lemma removeNode_clears:
  assumes "removeNode k h g n = Some (g', r)"
  shows "node_id (h n) \<notin> fst ` set (nodes g')"
    and "\<forall>e \<in> set (edges g'). edge_from e \<noteq> node_id (h n) \<and> edge_to e \<noteq> node_id (h n)"
proof -
  from assms obtain j where k: "k = Suc j" by (cases k) auto
  let ?g1 = "g\<lparr>nodes := Map_delete (node_id (h n)) (nodes g)\<rparr>"
  from assms k have l: "removeNode_loop j h n (edges g) ?g1 (addNode h emptyGraph n) = Some (g', r)"
    by (simp add: Let_def)
  have s: "shrinks ?g1 g'" using l by (rule removeNode_loop_shrinks')
  from shrinks_nodes [OF s] show "node_id (h n) \<notin> fst ` set (nodes g')"
    by (auto simp: Map_delete_def)
  from shrinks_edges [OF s] removeNode_loop_clears [OF l]
  show "\<forall>e \<in> set (edges g'). edge_from e \<noteq> node_id (h n) \<and> edge_to e \<noteq> node_id (h n)"
    by auto
qed

lemma removeNode_absent:
  assumes "node_id (h n) \<notin> fst ` set (nodes g)"
    and "\<forall>e \<in> set (edges g). edge_from e \<noteq> node_id (h n) \<and> edge_to e \<noteq> node_id (h n)"
  shows "removeNode (Suc j) h g n
         = Some (g, \<lparr>nodes = [(node_id (h n), n)], edges = [], rootNodeId = None\<rparr>)"
proof -
  have "g\<lparr>nodes := Map_delete (node_id (h n)) (nodes g)\<rparr> = g"
    using Map_delete_absent [OF assms(1)] by simp
  then show ?thesis
    using removeNode_loop_untouched [of "edges g" g h n j] assms(2)
    by (simp add: Let_def addNode_def emptyGraph_def)
qed

text \<open>
  Claim C4, as the code has it. For every graph and every node \<open>n\<close>, \<open>removeNode(n)\<close>
  returns (a fuel of twice the number of edges plus one suffices), and calling
  \<open>removeNode(n)\<close> again on the resulting graph returns too, leaves that graph as it is,
  and returns a removed graph that holds the node \<open>n\<close> itself and nothing else: no edge
  and no other node.
\<close>

theorem removeNode_twice:
  "\<exists>g1 r1. removeNode (2 * length (edges g) + 1 + i) h g n = Some (g1, r1)
     \<and> removeNode (Suc j) h g1 n
         = Some (g1, \<lparr>nodes = [(node_id (h n), n)], edges = [], rootNodeId = None\<rparr>)"
proof -
  obtain g1 r1 where 1: "removeNode (2 * length (edges g) + 1 + i) h g n = Some (g1, r1)"
    using removeNode_returns [of g "2 * length (edges g) + 1 + i" h n] by auto
  from removeNode_absent [of h n g1 j, OF removeNode_clears(1) [OF 1] removeNode_clears(2) [OF 1]] 1
  show ?thesis by blast
qed

text \<open>
  On the sample chain the second \<open>removeNode(C)\<close> changes nothing, and its removed graph
  is not empty: it holds \<open>C\<close>.
\<close>

theorem removeNode_twice_counterexample:
  "removeNode 5 sample_heap sample_chain 3
     = Some (\<lparr>nodes = [(''root'', 0), (''A'', 1), (''B'', 2)],
              edges = [sample_edge 0 ''root'' ''A'', sample_edge 1 ''A'' ''B''],
              rootNodeId = Some ''root''\<rparr>,
             \<lparr>nodes = [(''C'', 3)], edges = [sample_edge 2 ''B'' ''C''], rootNodeId = None\<rparr>)
   \<and> removeNode 5 sample_heap
        \<lparr>nodes = [(''root'', 0), (''A'', 1), (''B'', 2)],
         edges = [sample_edge 0 ''root'' ''A'', sample_edge 1 ''A'' ''B''],
         rootNodeId = Some ''root''\<rparr> 3
     = Some (\<lparr>nodes = [(''root'', 0), (''A'', 1), (''B'', 2)],
              edges = [sample_edge 0 ''root'' ''A'', sample_edge 1 ''A'' ''B''],
              rootNodeId = Some ''root''\<rparr>,
             \<lparr>nodes = [(''C'', 3)], edges = [], rootNodeId = None\<rparr>)
   \<and> nodes \<lparr>nodes = [(''C'', 3 :: nat)], edges = [], rootNodeId = None\<rparr> \<noteq> []"
  by (simp add: sample_heap_def sample_edge_def sample_chain_def eval_nat_numeral
      Set_delete_def Map_delete_def isOrphanedNode_def addEdge_def addNode_def
      emptyGraph_def Set_add_def merge_def Let_def)

subsection \<open>Merged graphs and graphs that shrank\<close>




subsection \<open>Lookups in the node map\<close>

lemma Map_get_Some_mem: "Map_get m k = Some v \<Longrightarrow> (k, v) \<in> set m"
  by (induction m) (auto split: if_splits)

lemma Map_get_None_keys: "Map_get m k = None \<longleftrightarrow> k \<notin> fst ` set m"
  by (induction m) auto

lemma Map_get_distinct: "distinct (map fst m) \<Longrightarrow> (k, v) \<in> set m \<Longrightarrow> Map_get m k = Some v"
  by (induction m) (auto simp: rev_image_eqI)


lemma removeEdge_loop_skip:
  "\<forall>p \<in> set ps. fst p \<noteq> edge_to e \<Longrightarrow> removeEdge_loop k h e ps g rem = Some (g, rem)"
  by (induction ps) auto

lemma removeEdge_loop_append:
  "removeEdge_loop k h e (ps @ qs) g rem =
     (case removeEdge_loop k h e ps g rem of
        None \<Rightarrow> None
      | Some (g', r') \<Rightarrow> removeEdge_loop k h e qs g' r')"
  by (induction ps arbitrary: g rem) (auto split: option.splits)

subsection \<open>Orphan pruning and cascading removal on small graphs\<close>

text \<open>With distinct keys, the loop of \<open>removeEdge\<close> over the map is a lookup.\<close>

lemma removeEdge_loop_lookup_None:
  "Map_get ps (edge_to e) = None \<Longrightarrow> removeEdge_loop k h e ps g rem = Some (g, rem)"
  by (rule removeEdge_loop_skip) (force simp: Map_get_None_keys)

lemma removeEdge_lookup:
  assumes d: "distinct (map fst (nodes g))"
  shows "removeEdge (Suc k) h g e =
     (let g1 = g\<lparr>edges := Set_delete e (edges g)\<rparr>; removed = addEdge emptyGraph e
      in case getNode g (edge_to e) of
           None \<Rightarrow> Some (g1, removed)
         | Some n \<Rightarrow>
             if isOrphanedNode h g1 n
             then (case removeNode k h g1 n of
                     None \<Rightarrow> None
                   | Some (g', r) \<Rightarrow> Some (g', merge h removed r))
             else Some (g1, removed))"
proof (cases "getNode g (edge_to e)")
  case None
  then show ?thesis
    by (simp add: Let_def getNode_def removeEdge_loop_lookup_None)
next
  case (Some n)
  let ?g1 = "g\<lparr>edges := Set_delete e (edges g)\<rparr>"
  from Some have m: "(edge_to e, n) \<in> set (nodes g)"
    by (simp add: getNode_def Map_get_Some_mem)
  then obtain ps qs where s: "nodes g = ps @ (edge_to e, n) # qs"
    by (meson split_list)
  with d have "edge_to e \<notin> fst ` set ps" "edge_to e \<notin> fst ` set qs"
    by auto
  then have k: "\<forall>p \<in> set ps. fst p \<noteq> edge_to e" "\<forall>p \<in> set qs. fst p \<noteq> edge_to e"
    by (metis imageI)+
  have sk: "removeEdge_loop k h e ps ?g1 (addEdge emptyGraph e) = Some (?g1, addEdge emptyGraph e)"
    by (rule removeEdge_loop_skip [OF k(1)])
  have step: "removeEdge_loop k h e ((edge_to e, n) # qs) ?g1 (addEdge emptyGraph e)
        = (if isOrphanedNode h ?g1 n
           then (case removeNode k h ?g1 n of
                   None \<Rightarrow> None
                 | Some (g', r) \<Rightarrow> Some (g', merge h (addEdge emptyGraph e) r))
           else Some (?g1, addEdge emptyGraph e))"
    using m removeEdge_loop_skip [OF k(2)] by (auto split: option.splits)
  have "removeEdge_loop k h e (ps @ (edge_to e, n) # qs) ?g1 (addEdge emptyGraph e)
        = (if isOrphanedNode h ?g1 n
           then (case removeNode k h ?g1 n of
                   None \<Rightarrow> None
                 | Some (g', r) \<Rightarrow> Some (g', merge h (addEdge emptyGraph e) r))
           else Some (?g1, addEdge emptyGraph e))"
    by (simp only: removeEdge_loop_append sk option.case prod.case step)
  then show ?thesis using Some by (simp add: Let_def s)
qed

lemma Map_get_Map_delete:
  "Map_get (Map_delete k m) i = (if i = k then None else Map_get m i)"
  unfolding Map_delete_def by (induction m) auto

lemma distinct_Map_delete: "distinct (map fst m) \<Longrightarrow> distinct (map fst (Map_delete k m))"
  unfolding Map_delete_def by (simp add: distinct_map_filter)

lemma two_perms:
  assumes "distinct xs" "set xs = {a, b}" "a \<noteq> b"
  shows "xs = [a, b] \<or> xs = [b, a]"
proof -
  have "length xs = 2"
    using assms distinct_card [of xs] by simp
  then obtain u v where "xs = [u, v]"
    by (metis (no_types) One_nat_def Suc_1 length_0_conv length_Suc_conv)
  with assms show ?thesis by auto
qed

lemma three_perms:
  assumes "distinct xs" "set xs = {a, b, c}" "distinct [a, b, c]"
  shows "xs = [a, b, c] \<or> xs = [a, c, b] \<or> xs = [b, a, c] \<or> xs = [b, c, a]
         \<or> xs = [c, a, b] \<or> xs = [c, b, a]"
proof -
  have "length xs = 3"
    using assms distinct_card [of xs] by simp
  then obtain u v w where x: "xs = [u, v, w]"
    by (metis (no_types) length_0_conv length_Suc_conv numeral_3_eq_3)
  have "u \<in> {a, b, c}" "v \<in> {a, b, c}" "w \<in> {a, b, c}"
    using assms(2) unfolding x by auto
  moreover have "u \<noteq> v" "u \<noteq> w" "v \<noteq> w"
    using assms(1) unfolding x by auto
  ultimately show ?thesis unfolding x by auto
qed


lemma set_Map_delete: "set (Map_delete k m) = {p \<in> set m. fst p \<noteq> k}"
  unfolding Map_delete_def by auto

text \<open>
  Claim C2. Take a graph with the nodes \<open>root\<close>, \<open>A\<close>, \<open>B\<close> and only the edges \<open>(root,A)\<close>
  and \<open>(A,B)\<close>, inserted in any order. \<open>removeEdge\<close> of its edge \<open>(A,B)\<close> returns (two units
  of fuel suffice), deletes that edge and the node \<open>B\<close>, so that the nodes \<open>root\<close> and \<open>A\<close>
  and the edge \<open>(root,A)\<close> are left, and returns a removed graph that holds exactly that
  edge and the node \<open>B\<close>. When the graph also has the edge \<open>(root,B)\<close>, the same call only
  deletes the edge: all three nodes stay, and the removed graph holds the edge \<open>(A,B)\<close>
  and no node. The edge handed to \<open>removeEdge\<close> is the edge object of the graph.
\<close>

theorem removeEdge_prunes_orphan:
  assumes ids: "distinct [r, a, b]" "node_id (h nb) = b"
    and n: "set (nodes g) = {(r, nr), (a, na), (b, nb)}" "distinct (map fst (nodes g))"
    and e: "set (edges g) = {e1, e2}" "distinct (edges g)"
    and e1: "edge_from e1 = r" "edge_to e1 = a"
    and e2: "edge_from e2 = a" "edge_to e2 = b"
    and e3: "edge_from e3 = r" "edge_to e3 = b"
    and g': "nodes g' = nodes g" "set (edges g') = {e1, e2, e3}" "distinct (edges g')"
  shows "removeEdge (Suc (Suc k)) h g e2
           = Some (g\<lparr>nodes := Map_delete b (nodes g), edges := Set_delete e2 (edges g)\<rparr>,
                   \<lparr>nodes = [(b, nb)], edges = [e2], rootNodeId = None\<rparr>)
         \<and> set (Map_delete b (nodes g)) = {(r, nr), (a, na)}
         \<and> set (Set_delete e2 (edges g)) = {e1}
         \<and> removeEdge (Suc k) h g' e2
           = Some (g'\<lparr>edges := Set_delete e2 (edges g')\<rparr>,
                   \<lparr>nodes = [], edges = [e2], rootNodeId = None\<rparr>)
         \<and> set (Set_delete e2 (edges g')) = {e1, e3}"
proof -
  have ne: "e1 \<noteq> e2" "e3 \<noteq> e2" "e1 \<noteq> e3" "a \<noteq> r" "b \<noteq> r" "b \<noteq> a"
    "r \<noteq> a" "r \<noteq> b" "a \<noteq> b"
    using ids e1 e2 e3 by auto
  have gb: "getNode g b = Some nb" "getNode g' b = Some nb"
    using n g'(1) by (simp_all add: getNode_def Map_get_distinct)
  have d': "distinct (map fst (nodes g'))" using n(2) g'(1) by simp
  have p2: "edges g = [e1, e2] \<or> edges g = [e2, e1]"
    using two_perms [OF e(2) e(1) ne(1)] .
  have p3: "edges g' = [e1, e2, e3] \<or> edges g' = [e1, e3, e2] \<or> edges g' = [e2, e1, e3]
         \<or> edges g' = [e2, e3, e1] \<or> edges g' = [e3, e1, e2] \<or> edges g' = [e3, e2, e1]"
    using three_perms [OF g'(3) g'(2)] ne by simp
  have 1: "removeEdge (Suc (Suc k)) h g e2
           = Some (g\<lparr>nodes := Map_delete b (nodes g), edges := Set_delete e2 (edges g)\<rparr>,
                   \<lparr>nodes = [(b, nb)], edges = [e2], rootNodeId = None\<rparr>)"
    using p2 ids e1 e2 ne gb
    by (elim disjE)
       (simp_all add: removeEdge_lookup [OF n(2)] Set_delete_def isOrphanedNode_def addEdge_def
          addNode_def emptyGraph_def Set_add_def merge_def Let_def del: removeEdge.simps)
  have 2: "set (Map_delete b (nodes g)) = {(r, nr), (a, na)}"
    using n(1) ne by (auto simp: set_Map_delete)
  have 3: "set (Set_delete e2 (edges g)) = {e1}"
    using e(1) ne by (auto simp: Set_delete_def)
  have 4: "removeEdge (Suc k) h g' e2
           = Some (g'\<lparr>edges := Set_delete e2 (edges g')\<rparr>,
                   \<lparr>nodes = [], edges = [e2], rootNodeId = None\<rparr>)"
    using p3 ids e1 e2 e3 ne gb
    by (elim disjE)
       (simp_all add: removeEdge_lookup [OF d'] Set_delete_def isOrphanedNode_def addEdge_def
          addNode_def emptyGraph_def Set_add_def merge_def Let_def del: removeEdge.simps)
  have 5: "set (Set_delete e2 (edges g')) = {e1, e3}"
    using g'(2) ne by (auto simp: Set_delete_def)
  from 1 2 3 4 5 show ?thesis by blast
qed

theorem removeEdge_prunes_orphan_witness:
  "distinct [''root'', ''A'', ''B'']
   \<and> removeEdge 2 sample_heap sample_path (sample_edge 1 ''A'' ''B'')
     = Some (\<lparr>nodes = [(''root'', 0), (''A'', 1)], edges = [sample_edge 0 ''root'' ''A''],
              rootNodeId = Some ''root''\<rparr>,
             \<lparr>nodes = [(''B'', 2)], edges = [sample_edge 1 ''A'' ''B''], rootNodeId = None\<rparr>)
   \<and> removeEdge 1 sample_heap sample_two_paths (sample_edge 1 ''A'' ''B'')
     = Some (\<lparr>nodes = [(''root'', 0), (''A'', 1), (''B'', 2)],
              edges = [sample_edge 0 ''root'' ''A'', sample_edge 2 ''root'' ''B''],
              rootNodeId = Some ''root''\<rparr>,
             \<lparr>nodes = [], edges = [sample_edge 1 ''A'' ''B''], rootNodeId = None\<rparr>)"
proof -
  have d: "distinct [''root'', ''A'', ''B'']" by simp
  have i: "node_id (sample_heap 2) = ''B''" by (simp add: sample_heap_def)
  have n: "set (nodes sample_path) = {(''root'', 0), (''A'', 1), (''B'', 2)}"
    "distinct (map fst (nodes sample_path))"
    by (simp_all add: sample_path_def)
  have e: "set (edges sample_path) = {sample_edge 0 ''root'' ''A'', sample_edge 1 ''A'' ''B''}"
    "distinct (edges sample_path)"
    by (simp_all add: sample_path_def sample_edge_def)
  have e': "nodes sample_two_paths = nodes sample_path"
    "set (edges sample_two_paths)
       = {sample_edge 0 ''root'' ''A'', sample_edge 1 ''A'' ''B'', sample_edge 2 ''root'' ''B''}"
    "distinct (edges sample_two_paths)"
    by (simp_all add: sample_path_def sample_two_paths_def sample_edge_def)
  have f: "edge_from (sample_edge 0 ''root'' ''A'') = ''root''"
    "edge_to (sample_edge 0 ''root'' ''A'') = ''A''"
    "edge_from (sample_edge 1 ''A'' ''B'') = ''A''"
    "edge_to (sample_edge 1 ''A'' ''B'') = ''B''"
    "edge_from (sample_edge 2 ''root'' ''B'') = ''root''"
    "edge_to (sample_edge 2 ''root'' ''B'') = ''B''"
    by (simp_all add: sample_edge_def)
  from removeEdge_prunes_orphan
    [where r = "''root''" and a = "''A''" and b = "''B''" and h = sample_heap
       and nr = 0 and na = 1 and nb = 2 and g = sample_path and g' = sample_two_paths
       and ?e1.0 = "sample_edge 0 ''root'' ''A''" and ?e2.0 = "sample_edge 1 ''A'' ''B''"
       and ?e3.0 = "sample_edge 2 ''root'' ''B''" and k = 0, OF d i n e f e']
  show ?thesis
    by (simp add: sample_edge_def sample_path_def sample_two_paths_def numeral_2_eq_2
        Map_delete_def Set_delete_def)
qed

text \<open>
  Claim C3, as the code has it. Take the chain \<open>root \<rightarrow> A \<rightarrow> B \<rightarrow> C\<close> with no other nodes
  or edges, inserted in any order. \<open>removeNode(A)\<close> returns (five units of fuel suffice)
  and deletes the node \<open>A\<close>, the edge \<open>(A,B)\<close>, the node \<open>B\<close>, the edge \<open>(B,C)\<close>, the node
  \<open>C\<close> and also the edge \<open>(root,A)\<close> that ends at \<open>A\<close>; only the node \<open>root\<close> is left. The
  removed graph holds exactly the nodes \<open>A\<close>, \<open>B\<close>, \<open>C\<close> and the edges \<open>(root,A)\<close>, \<open>(A,B)\<close>,
  \<open>(B,C)\<close>, the latter in the order in which the loop met them: the downstream chain
  and the edge that led into it.
\<close>

theorem removeNode_chain:
  assumes ids: "distinct [r, a, b, c]" "node_id (h na) = a" "node_id (h nb) = b" "node_id (h nc) = c"
    and n: "set (nodes g) = {(r, nr), (a, na), (b, nb), (c, nc)}" "distinct (map fst (nodes g))"
    and e: "set (edges g) = {e1, e2, e3}" "distinct (edges g)"
    and e1: "edge_from e1 = r" "edge_to e1 = a"
    and e2: "edge_from e2 = a" "edge_to e2 = b"
    and e3: "edge_from e3 = b" "edge_to e3 = c"
  shows "\<exists>es. removeNode (Suc (Suc (Suc (Suc (Suc k))))) h g na
           = Some (g\<lparr>nodes := Map_delete c (Map_delete b (Map_delete a (nodes g))), edges := []\<rparr>,
                   \<lparr>nodes = [(a, na), (b, nb), (c, nc)], edges = es, rootNodeId = None\<rparr>)
           \<and> (es = [e1, e2, e3] \<or> es = [e2, e3, e1])
           \<and> set (Map_delete c (Map_delete b (Map_delete a (nodes g)))) = {(r, nr)}"
proof -
  have ne: "e1 \<noteq> e2" "e1 \<noteq> e3" "e2 \<noteq> e3" "e2 \<noteq> e1" "e3 \<noteq> e1" "e3 \<noteq> e2"
    "a \<noteq> r" "b \<noteq> r" "b \<noteq> a" "c \<noteq> r" "c \<noteq> a" "c \<noteq> b"
    "r \<noteq> a" "r \<noteq> b" "a \<noteq> b" "r \<noteq> c" "a \<noteq> c" "b \<noteq> c"
    using ids e1 e2 e3 by auto
  have gn: "Map_get (nodes g) a = Some na" "Map_get (nodes g) b = Some nb"
    "Map_get (nodes g) c = Some nc"
    using n by (simp_all add: Map_get_distinct)
  have p3: "edges g = [e1, e2, e3] \<or> edges g = [e1, e3, e2] \<or> edges g = [e2, e1, e3]
         \<or> edges g = [e2, e3, e1] \<or> edges g = [e3, e1, e2] \<or> edges g = [e3, e2, e1]"
    using three_perms [OF e(2) e(1)] ne by simp
  note d = n(2) distinct_Map_delete
  have left: "set (Map_delete c (Map_delete b (Map_delete a (nodes g)))) = {(r, nr)}"
    using n(1) ne by (auto simp: set_Map_delete)
  show ?thesis
    unfolding left
    using p3 ids e1 e2 e3 ne gn
    by (elim disjE)
       (simp_all add: removeEdge_lookup d getNode_def Map_get_Map_delete Set_delete_def
          isOrphanedNode_def addEdge_def addNode_def emptyGraph_def Set_add_def merge_def Let_def
          del: removeEdge.simps)
qed

theorem removeNode_chain_witness:
  "distinct [''root'', ''A'', ''B'', ''C'']
   \<and> (\<exists>es. removeNode 5 sample_heap sample_chain 1
           = Some (\<lparr>nodes = [(''root'', 0)], edges = [], rootNodeId = Some ''root''\<rparr>,
                   \<lparr>nodes = [(''A'', 1), (''B'', 2), (''C'', 3)], edges = es,
                    rootNodeId = None\<rparr>)
         \<and> (es = [sample_edge 0 ''root'' ''A'', sample_edge 1 ''A'' ''B'',
                    sample_edge 2 ''B'' ''C'']
              \<or> es = [sample_edge 1 ''A'' ''B'', sample_edge 2 ''B'' ''C'',
                       sample_edge 0 ''root'' ''A'']))"
proof -
  have d: "distinct [''root'', ''A'', ''B'', ''C'']" by simp
  have i: "node_id (sample_heap 1) = ''A''" "node_id (sample_heap 2) = ''B''"
    "node_id (sample_heap 3) = ''C''"
    by (simp_all add: sample_heap_def)
  have n: "set (nodes sample_chain) = {(''root'', 0), (''A'', 1), (''B'', 2), (''C'', 3)}"
    "distinct (map fst (nodes sample_chain))"
    by (simp_all add: sample_chain_def)
  have e: "set (edges sample_chain)
             = {sample_edge 0 ''root'' ''A'', sample_edge 1 ''A'' ''B'', sample_edge 2 ''B'' ''C''}"
    "distinct (edges sample_chain)"
    by (simp_all add: sample_chain_def sample_edge_def)
  have f: "edge_from (sample_edge 0 ''root'' ''A'') = ''root''"
    "edge_to (sample_edge 0 ''root'' ''A'') = ''A''"
    "edge_from (sample_edge 1 ''A'' ''B'') = ''A''"
    "edge_to (sample_edge 1 ''A'' ''B'') = ''B''"
    "edge_from (sample_edge 2 ''B'' ''C'') = ''B''"
    "edge_to (sample_edge 2 ''B'' ''C'') = ''C''"
    by (simp_all add: sample_edge_def)
  from removeNode_chain
    [where r = "''root''" and a = "''A''" and b = "''B''" and c = "''C''" and h = sample_heap
       and nr = 0 and na = 1 and nb = 2 and nc = 3 and g = sample_chain
       and ?e1.0 = "sample_edge 0 ''root'' ''A''" and ?e2.0 = "sample_edge 1 ''A'' ''B''"
       and ?e3.0 = "sample_edge 2 ''B'' ''C''" and k = 0, OF d i n e f]
  show ?thesis
    by (simp add: sample_edge_def sample_chain_def eval_nat_numeral Map_delete_def)
qed

text \<open>
  The removed graph of the sample chain holds the edge \<open>(root,A)\<close>, which is not part
  of the chain downstream of \<open>A\<close>.
\<close>

theorem removeNode_chain_counterexample:
  "map_option (\<lambda>(g', rem). (nodes rem, edges rem)) (removeNode 5 sample_heap sample_chain 1)
     = Some ([(''A'', 1), (''B'', 2), (''C'', 3)],
             [sample_edge 0 ''root'' ''A'', sample_edge 1 ''A'' ''B'',
              sample_edge 2 ''B'' ''C''])
   \<and> sample_edge 0 ''root'' ''A''
       \<in> set [sample_edge 0 ''root'' ''A'', sample_edge 1 ''A'' ''B'',
               sample_edge 2 ''B'' ''C'']
   \<and> sample_edge 0 ''root'' ''A'' \<notin> {sample_edge 1 ''A'' ''B'', sample_edge 2 ''B'' ''C''}"
  by (simp add: sample_heap_def sample_edge_def sample_chain_def eval_nat_numeral
      Set_delete_def Map_delete_def isOrphanedNode_def addEdge_def addNode_def
      emptyGraph_def Set_add_def merge_def Let_def)

subsection \<open>Incremental replacement\<close>







































end
